theory Spec2Isabelle
  imports Main "HOL-Library.Sublist"
begin

section \<open>Python strings\<close>

text \<open>
  A Python \<open>str\<close> is a sequence of code points. A \<^typ>\<open>char\<close> stands for the code point
  \<open>of_char c\<close>, so a \<^typ>\<open>string\<close> is a Python text whose code points are below 256.
  The built-in methods the scraper calls are written out for that range:
  \<open>str.isspace\<close>, the line boundaries of \<open>str.splitlines\<close>, \<open>str.lower\<close>,
  \<open>str.split()\<close>, \<open>str.strip()\<close>, \<open>str.join\<close>, \<open>str.startswith\<close> and \<open>in\<close>.
\<close>

abbreviation LF :: char where "LF \<equiv> CHR 0x0A"
abbreviation CR :: char where "CR \<equiv> CHR 0x0D"

definition is_space :: "char \<Rightarrow> bool" where
  \<comment> \<open>\<open>chr(n).isspace()\<close> for \<open>n < 256\<close>\<close>
  "is_space c = (of_char c \<in> {9, 10, 11, 12, 13, 28, 29, 30, 31, 32, 133, 160 :: nat})"

definition is_linebreak :: "char \<Rightarrow> bool" where
  \<comment> \<open>the line boundaries of \<open>str.splitlines\<close> below 256:
      \<open>\n \v \f \r \x1c \x1d \x1e \x85\<close>\<close>
  "is_linebreak c = (of_char c \<in> {10, 11, 12, 13, 28, 29, 30, 133 :: nat})"

definition lower_char :: "char \<Rightarrow> char" where
  \<comment> \<open>\<open>A-Z\<close> and the Latin-1 capitals \<open>0xC0-0xDE\<close> (without the sign \<open>0xD7\<close>)
      move up by 32; every other code point below 256 is its own lower case\<close>
  "lower_char c =
     (let n = of_char c :: nat
      in if (65 \<le> n \<and> n \<le> 90) \<or> (192 \<le> n \<and> n \<le> 222 \<and> n \<noteq> 215)
         then char_of (n + 32) else c)"

definition lower :: "string \<Rightarrow> string" where
  "lower s = map lower_char s"

text \<open>\<open>s.split()\<close>: the maximal runs of non-whitespace, scanned left to right with
  the word read so far in \<open>cur\<close>.\<close>

fun split_acc :: "string \<Rightarrow> string \<Rightarrow> string list" where
  "split_acc cur [] = (if cur = [] then [] else [cur])"
| "split_acc cur (c # cs) =
     (if is_space c then (if cur = [] then split_acc [] cs else cur # split_acc [] cs)
      else split_acc (cur @ [c]) cs)"

definition split_ws :: "string \<Rightarrow> string list" where
  "split_ws s = split_acc [] s"

text \<open>\<open>s.splitlines()\<close>: a line ends at a line boundary, \<open>\r\n\<close> counts as one
  boundary, and a last line is listed only when it is not empty.\<close>

fun splitlines_acc :: "string \<Rightarrow> string \<Rightarrow> string list" where
  "splitlines_acc cur [] = (if cur = [] then [] else [cur])"
| "splitlines_acc cur [c] = (if is_linebreak c then [cur] else [cur @ [c]])"
| "splitlines_acc cur (c # d # ds) =
     (if c = CR \<and> d = LF then cur # splitlines_acc [] ds
      else if is_linebreak c then cur # splitlines_acc [] (d # ds)
      else splitlines_acc (cur @ [c]) (d # ds))"

definition splitlines :: "string \<Rightarrow> string list" where
  "splitlines s = splitlines_acc [] s"

text \<open>\<open>sep.join(xs)\<close>\<close>

fun join :: "string \<Rightarrow> string list \<Rightarrow> string" where
  "join sep [] = []"
| "join sep [x] = x"
| "join sep (x # y # ys) = x @ sep @ join sep (y # ys)"

definition strip :: "string \<Rightarrow> string" where
  "strip s = rev (dropWhile is_space (rev (dropWhile is_space s)))"

text \<open>\<open>s.startswith(p)\<close> and \<open>p in s\<close>\<close>

fun startswith :: "string \<Rightarrow> string \<Rightarrow> bool" where
  "startswith s [] = True"
| "startswith [] (p # ps) = False"
| "startswith (c # cs) (p # ps) = (c = p \<and> startswith cs ps)"

fun contains :: "string \<Rightarrow> string \<Rightarrow> bool" where
  "contains [] p = (p = [])"
| "contains (c # cs) p = (startswith (c # cs) p \<or> contains cs p)"

text \<open>\<open>re.search(pat, s)\<close> for the patterns of this program, which hold letters and
  single blanks only (no metacharacter): the pattern occurs in \<open>s\<close>.\<close>

definition re_search :: "string \<Rightarrow> string \<Rightarrow> bool" where
  "re_search pat s = contains s pat"

section \<open>Cleaning helpers\<close>

definition cookie_patterns :: "string list" where
  "cookie_patterns =
     [''we use cookies'', ''cookie policy'', ''accept all'', ''reject all'', ''gdpr'',
      ''privacy settings'']"

definition nav_phrases :: "string list" where
  "nav_phrases = [''log in'', ''sign up'', ''menu'', ''what can i help with'']"

definition cookie_line :: "string \<Rightarrow> bool" where
  \<comment> \<open>the test under which \<open>remove_cookie_banners\<close> skips a line\<close>
  "cookie_line line =
     (let lw = lower line
      in length (split_ws line) < 15 \<and> list_ex (\<lambda>pat. re_search pat lw) cookie_patterns)"

definition nav_line :: "string \<Rightarrow> bool" where
  \<comment> \<open>the test under which \<open>remove_navigation\<close> skips a line\<close>
  "nav_line line =
     (let lw = strip (lower line)
      in list_ex (\<lambda>phrase. contains lw phrase) nav_phrases \<and> length (split_ws lw) \<le> 5)"

definition remove_cookie_banners :: "string \<Rightarrow> string" where
  "remove_cookie_banners txt =
     join [LF] (filter (\<lambda>line. \<not> cookie_line line) (splitlines txt))"

definition remove_navigation :: "string \<Rightarrow> string" where
  "remove_navigation txt =
     join [LF] (filter (\<lambda>line. \<not> nav_line line) (splitlines txt))"

definition clean_extracted_text :: "string \<Rightarrow> string" where
  "clean_extracted_text txt = strip (remove_navigation (remove_cookie_banners txt))"

definition is_valid_content :: "string \<Rightarrow> nat \<Rightarrow> bool" where
  \<comment> \<open>\<open>min_words\<close> is passed at every call; the source's default is 50\<close>
  "is_valid_content txt min_words =
     (min_words \<le> length (split_ws txt) \<and>
      \<not> list_ex (\<lambda>p. startswith (lower txt) p) [''we use cookies'', ''cookie policy''])"

section \<open>Collaborators and program state\<close>

text \<open>
  The network, the two HTML libraries, the search aggregator, the database server and the
  hash order of Python sets are outside the program. Their answers are the fields of an
  environment; the program's own steps are functions of that environment and of an explicit
  state. An exception is a value \<open>Inl (Exception msg)\<close>; every \<open>except Exception\<close>
  of the source is a case on it.
\<close>

datatype exn = Exception string

datatype strategy = strategy_requests | strategy_cloudscraper | strategy_requests_html

text \<open>A search result is the JSON object the aggregator returned, a dict from keys to
  text values. \<open>result.get(k)\<close> is \<open>map_of result k\<close>.\<close>

type_synonym result = "(string \<times> string) list"

definition get_default :: "result \<Rightarrow> string \<Rightarrow> string \<Rightarrow> string" where
  \<comment> \<open>\<open>result.get(k, d)\<close>\<close>
  "get_default r k d = (case map_of r k of None \<Rightarrow> d | Some v \<Rightarrow> v)"

text \<open>The table \<open>scraped_results\<close>. The columns \<open>id\<close> and \<open>created_at\<close> are filled by the
  database server and read nowhere in the program; they are not part of a row here.
  \<open>url\<close> is nullable and carries the unique constraint.\<close>

record ScrapedResult =
  query :: string
  title :: string
  url :: "string option"
  description :: string
  engine_name :: string
  searxng_json :: result
  extracted_content :: string
  embedding :: string

record env =
  HAS_REQUESTS_HTML :: bool
  fetch :: "strategy \<Rightarrow> (strategy \<times> string) list \<Rightarrow> string \<Rightarrow> exn + string"
    \<comment> \<open>what calling a strategy on a URL gives, after the calls made so far: the HTML,
        or the exception it raises\<close>
  doc_summary :: "string \<Rightarrow> exn + string"
    \<comment> \<open>\<open>Document(html).summary()\<close>\<close>
  get_text :: "string \<Rightarrow> exn + string"
    \<comment> \<open>\<open>BeautifulSoup(html, "lxml").get_text(separator='\n', strip=True)\<close>\<close>
  searxng :: "string \<Rightarrow> exn + result list"
    \<comment> \<open>the \<open>results\<close> list of the aggregator's answer to a query, or the exception of
        the request, of \<open>raise_for_status\<close> or of the JSON decoding\<close>
  commit_error :: "ScrapedResult list \<Rightarrow> ScrapedResult \<Rightarrow> bool"
    \<comment> \<open>the database fails the commit for a reason of its own\<close>
  compute_embedding :: "string \<Rightarrow> string"
  str_hash :: "string \<Rightarrow> nat"
    \<comment> \<open>a Python set iterates in the order of its hash table\<close>

record state =
  db :: "ScrapedResult list"
  redis :: "string \<rightharpoonup> string \<times> nat"
    \<comment> \<open>key to value and the expiry in seconds it was stored with; a key the server
        has expired is a key that is not there\<close>
  calls :: "(strategy \<times> string) list"
    \<comment> \<open>the strategy calls made, oldest first\<close>
  slept :: nat
    \<comment> \<open>seconds spent in \<open>time.sleep\<close>\<close>

definition redis_exists :: "(string \<rightharpoonup> string \<times> nat) \<Rightarrow> string \<Rightarrow> bool" where
  "redis_exists r k = (r k \<noteq> None)"

definition redis_get :: "(string \<rightharpoonup> string \<times> nat) \<Rightarrow> string \<Rightarrow> string option" where
  "redis_get r k = map_option fst (r k)"

definition redis_set ::
  "(string \<rightharpoonup> string \<times> nat) \<Rightarrow> string \<Rightarrow> string \<Rightarrow> nat \<Rightarrow> (string \<rightharpoonup> string \<times> nat)" where
  \<comment> \<open>\<open>set(k, v, ex=ttl)\<close> and \<open>setex(k, ttl, v)\<close>\<close>
  "redis_set r k v ttl = r(k \<mapsto> (v, ttl))"

definition sleep :: "nat \<Rightarrow> state \<Rightarrow> state" where
  "sleep n s = s\<lparr>slept := slept s + n\<rparr>"

definition db_commit :: "env \<Rightarrow> ScrapedResult list \<Rightarrow> ScrapedResult \<Rightarrow> exn + ScrapedResult list" where
  \<comment> \<open>\<open>add\<close> and \<open>commit\<close> of one row: the unique constraint on \<open>url\<close> refuses a URL
      that a stored row has\<close>
  "db_commit e rows new =
     (if url new \<noteq> None \<and> url new \<in> set (map url rows)
      then Inl (Exception ''IntegrityError'')
      else if commit_error e rows new then Inl (Exception ''OperationalError'')
      else Inr (rows @ [new]))"

text \<open>SQL \<open>LIKE\<close>: \<open>%\<close> stands for any text, \<open>_\<close> for any one character and a
  backslash makes the next pattern character literal. \<open>ILIKE\<close> compares without case.\<close>

fun like :: "string \<Rightarrow> string \<Rightarrow> bool" where
  "like [] [] = True"
| "like [] (c # cs) = False"
| "like (p # ps) [] = (p = CHR ''%'' \<and> like ps [])"
| "like (p # ps) (c # cs) =
     (if p = CHR ''%'' then like ps (c # cs) \<or> like (p # ps) cs
      else if p = CHR ''_'' then like ps cs
      else if p = CHR 0x5C then (case ps of [] \<Rightarrow> False | q # qs \<Rightarrow> q = c \<and> like qs cs)
      else p = c \<and> like ps cs)"

definition ilike :: "string \<Rightarrow> string \<Rightarrow> bool" where
  \<comment> \<open>\<open>column.ilike(pattern)\<close>\<close>
  "ilike s pattern = like (lower pattern) (lower s)"

section \<open>Scraping\<close>

definition primary_text :: "env \<Rightarrow> string \<Rightarrow> exn + string" where
  \<comment> \<open>the \<open>try\<close> block of \<open>extract_article\<close>: the summary of the page, then its text\<close>
  "primary_text e html =
     (case doc_summary e html of
        Inl x \<Rightarrow> Inl x
      | Inr summary_html \<Rightarrow> get_text e summary_html)"

definition extract_article :: "env \<Rightarrow> string \<Rightarrow> exn + string" where
  "extract_article e html =
     (let content = (case primary_text e html of Inl _ \<Rightarrow> [] | Inr c \<Rightarrow> c)
      in if length (split_ws content) < 50
         then (case get_text e html of
                 Inl x \<Rightarrow> Inl x
               | Inr c \<Rightarrow> Inr (clean_extracted_text c))
         else Inr (clean_extracted_text content))"

definition strategies :: "env \<Rightarrow> strategy list" where
  "strategies e =
     [strategy_requests, strategy_cloudscraper] @
     (if HAS_REQUESTS_HTML e then [strategy_requests_html] else [])"

definition attempt :: "env \<Rightarrow> strategy \<Rightarrow> string \<Rightarrow> state \<Rightarrow> exn + string" where
  \<comment> \<open>\<open>html = strat(url); article = extract_article(html)\<close>\<close>
  "attempt e strat u s =
     (case fetch e strat (calls s) u of Inl x \<Rightarrow> Inl x | Inr html \<Rightarrow> extract_article e html)"

definition called :: "strategy \<Rightarrow> string \<Rightarrow> state \<Rightarrow> state" where
  "called strat u s = s\<lparr>calls := calls s @ [(strat, u)]\<rparr>"

text \<open>The loop of \<open>try_scrape\<close> over the strategies left to try.\<close>

fun try_strategies :: "env \<Rightarrow> string \<Rightarrow> strategy list \<Rightarrow> state \<Rightarrow> string \<times> state" where
  "try_strategies e u [] s = (''Failed to extract valid content.'', s)"
| "try_strategies e u (strat # rest) s =
     (case attempt e strat u s of
        Inr article \<Rightarrow>
          if is_valid_content article 50 then (article, called strat u s)
          else try_strategies e u rest (sleep 1 (called strat u s))
      | Inl _ \<Rightarrow> try_strategies e u rest (sleep 1 (called strat u s)))"

definition try_scrape :: "env \<Rightarrow> string \<Rightarrow> state \<Rightarrow> string \<times> state" where
  "try_scrape e u s = try_strategies e u (strategies e) s"

text \<open>Words for the course of the chain: a strategy fails when it raises, when the
  extraction raises or when the article is not valid; the state after a run of failed
  strategies has their calls and their pauses.\<close>

definition fails :: "env \<Rightarrow> strategy \<Rightarrow> string \<Rightarrow> state \<Rightarrow> bool" where
  "fails e strat u s =
     (case attempt e strat u s of Inl _ \<Rightarrow> True | Inr article \<Rightarrow> \<not> is_valid_content article 50)"

fun after_failures :: "string \<Rightarrow> strategy list \<Rightarrow> state \<Rightarrow> state" where
  "after_failures u [] s = s"
| "after_failures u (strat # rest) s = after_failures u rest (sleep 1 (called strat u s))"

fun all_fail :: "env \<Rightarrow> string \<Rightarrow> strategy list \<Rightarrow> state \<Rightarrow> bool" where
  "all_fail e u [] s = True"
| "all_fail e u (strat # rest) s =
     (fails e strat u s \<and> all_fail e u rest (sleep 1 (called strat u s)))"

section \<open>Persistence and caching\<close>

definition scraped_key :: "string \<Rightarrow> string" where
  "scraped_key u = ''scraped:'' @ u"

definition new_row :: "env \<Rightarrow> string \<Rightarrow> result \<Rightarrow> string \<Rightarrow> ScrapedResult" where
  \<comment> \<open>the \<open>ScrapedResult(...)\<close> that \<open>persist_result\<close> builds\<close>
  "new_row e q r scraped_content =
     \<lparr>query = q,
      title = take 500 (get_default r ''title'' ''No Title''),
      url = map_of r ''url'',
      description = take 1000 (get_default r ''content'' ''No Description''),
      engine_name = get_default r ''engine'' ''Unknown'',
      searxng_json = r,
      extracted_content = take 10000 scraped_content,
      embedding = compute_embedding e scraped_content\<rparr>"

definition persist_result :: "env \<Rightarrow> string \<Rightarrow> result \<Rightarrow> string \<Rightarrow> state \<Rightarrow> state" where
  "persist_result e q r scraped_content s =
     (let new_result = new_row e q r scraped_content
      in case db_commit e (db s) new_result of
           Inr rows \<Rightarrow>
             s\<lparr>db := rows,
               redis := redis_set (redis s)
                 (scraped_key (case url new_result of None \<Rightarrow> ''None'' | Some u \<Rightarrow> u))
                 ''1'' 86400\<rparr>
         | Inl _ \<Rightarrow> s)"

definition get_existing_urls :: "ScrapedResult list \<Rightarrow> string list \<Rightarrow> string list" where
  "get_existing_urls rows urls =
     concat (map (\<lambda>row. case url row of
                           None \<Rightarrow> []
                         | Some u \<Rightarrow> if u \<in> set urls then [u] else []) rows)"

definition compress_results :: "env \<Rightarrow> ScrapedResult list \<Rightarrow> string" where
  "compress_results e results =
     join [LF]
       (sort_key (str_hash e)
          (remdups (concat (map (\<lambda>r. splitlines (extracted_content r)) results))))"

section \<open>Core logic\<close>

definition loop_body :: "env \<Rightarrow> string \<Rightarrow> string list \<Rightarrow> result \<Rightarrow> state \<Rightarrow> state" where
  \<comment> \<open>one turn of the \<open>for result in results\<close> loop of \<open>search_and_scrape\<close>\<close>
  "loop_body e q existing_urls r s =
     (case map_of r ''url'' of
        None \<Rightarrow> s
      | Some u \<Rightarrow>
          if u = [] then s
          else if redis_exists (redis s) (scraped_key u) \<or> u \<in> set existing_urls then s
          else
            (case try_scrape e u s of
               (content, s1) \<Rightarrow>
                 sleep 1
                   (if \<not> contains content ''Failed''
                    then (let s2 = persist_result e q r content s1
                          in s2\<lparr>redis := redis_set (redis s2) (scraped_key u) ''1'' 86400\<rparr>)
                    else s1)))"

fun per_url_loop :: "env \<Rightarrow> string \<Rightarrow> string list \<Rightarrow> result list \<Rightarrow> state \<Rightarrow> state" where
  "per_url_loop e q existing_urls [] s = s"
| "per_url_loop e q existing_urls (r # rest) s =
     per_url_loop e q existing_urls rest (loop_body e q existing_urls r s)"

definition candidate_urls :: "result list \<Rightarrow> string list" where
  \<comment> \<open>\<open>[res["url"] for res in results if res.get("url")]\<close>\<close>
  "candidate_urls results =
     concat (map (\<lambda>res. case map_of res ''url'' of
                           None \<Rightarrow> []
                         | Some u \<Rightarrow> if u = [] then [] else [u]) results)"

definition search_and_scrape :: "env \<Rightarrow> string \<Rightarrow> state \<Rightarrow> state" where
  "search_and_scrape e q s =
     (case searxng e q of
        Inl _ \<Rightarrow> s
      | Inr results \<Rightarrow>
          per_url_loop e q (get_existing_urls (db s) (candidate_urls results)) results s)"

section \<open>The answer endpoint\<close>

datatype response = Response nat "(string \<times> string) list"

definition answer_uncached :: "env \<Rightarrow> string \<Rightarrow> state \<Rightarrow> response \<times> state" where
  \<comment> \<open>\<open>scrape_query\<close> from the call of \<open>search_and_scrape\<close> on\<close>
  "answer_uncached e q s =
     (let s1 = search_and_scrape e q s;
          results = filter (\<lambda>r. ilike (query r) (''%'' @ q @ ''%'')) (db s1);
          compressed = compress_results e results;
          s2 = (if compressed \<noteq> []
                then s1\<lparr>redis := redis_set (redis s1) (''results:'' @ q) compressed 300\<rparr>
                else s1)
      in (Response 200 [(''query'', q), (''data'', compressed)], s2))"

definition scrape_query :: "env \<Rightarrow> string option \<Rightarrow> state \<Rightarrow> response \<times> state" where
  \<comment> \<open>the argument is \<open>request.args.get("q")\<close>\<close>
  "scrape_query e arg s =
     (let q = strip (case arg of None \<Rightarrow> [] | Some v \<Rightarrow> v)
      in if q = [] then (Response 400 [(''error'', ''Missing query parameter'')], s)
         else (case redis_get (redis s) (''results:'' @ q) of
                 None \<Rightarrow> answer_uncached e q s
               | Some cached \<Rightarrow>
                   if cached \<noteq> [] then (Response 200 [(''query'', q), (''data'', cached)], s)
                   else answer_uncached e q s))"

text \<open>Any number of requests to the endpoint, each with the answers the collaborators
  give during it.\<close>

fun serve :: "(env \<times> string option) list \<Rightarrow> state \<Rightarrow> state" where
  "serve [] s = s"
| "serve ((e, arg) # rest) s = serve rest (snd (scrape_query e arg s))"

section \<open>Words for the claims\<close>

text \<open>The URLs of the stored rows, and the strategy calls made on one URL.\<close>

definition stored_urls :: "ScrapedResult list \<Rightarrow> string list" where
  "stored_urls rows = concat (map (\<lambda>row. case url row of None \<Rightarrow> [] | Some u \<Rightarrow> [u]) rows)"

definition fetched :: "string \<Rightarrow> state \<Rightarrow> (strategy \<times> string) list" where
  "fetched u s = filter (\<lambda>c. snd c = u) (calls s)"

text \<open>A query without a character that SQL \<open>LIKE\<close> reads as a wildcard or an escape.\<close>

definition plain_query :: "string \<Rightarrow> bool" where
  "plain_query q = list_all (\<lambda>c. c \<noteq> CHR ''%'' \<and> c \<noteq> CHR ''_'' \<and> c \<noteq> CHR 0x5C) q"

section \<open>Example inputs\<close>

text \<open>A page of fifty words, a page of fifty words with the word \<open>Failed\<close> in it, and
  collaborators for one candidate URL: the plain fetch is answered by a block page, the
  other strategies by the page.\<close>

definition words50 :: string where
  "words50 = concat (replicate 50 ''w '')"

definition failed_article :: string where
  "failed_article = concat (replicate 49 ''w '') @ ''Failed''"

definition example_env :: env where
  "example_env =
     \<lparr>HAS_REQUESTS_HTML = True,
      fetch = (\<lambda>strat cs u. if strat = strategy_requests then Inr ''blocked'' else Inr ''page''),
      doc_summary = (\<lambda>html. Inr html),
      get_text = (\<lambda>html. if html = ''blocked'' then Inr ''Access denied'' else Inr words50),
      searxng = (\<lambda>q. Inr [[(''url'', ''http://a''), (''title'', ''A'')]]),
      commit_error = (\<lambda>rows new. False),
      compute_embedding = (\<lambda>t. ''[]''),
      str_hash = length\<rparr>"

definition empty_state :: state where
  "empty_state = \<lparr>db = [], redis = Map.empty, calls = [], slept = 0\<rparr>"

definition example_row :: ScrapedResult where
  "example_row =
     new_row example_env ''abc'' [(''url'', ''http://a'')] (''Hello'' @ [LF] @ ''World'')"

definition example_row_b :: ScrapedResult where
  "example_row_b =
     new_row example_env ''abc'' [(''url'', ''http://b'')] (''World'' @ [LF] @ ''Foo'')"

section \<open>Facts about the string operations\<close>

lemma lower_append: "lower (a @ b) = lower a @ lower b"
  by (simp add: lower_def)

lemma startswith_append: "startswith (p @ r) p"
  by (induction p) auto

lemma is_space_lower_char: "is_space (lower_char c) = is_space c"
  unfolding is_space_def lower_char_def Let_def by auto

lemma linebreak_is_space: "is_linebreak c \<Longrightarrow> is_space c"
  by (auto simp: is_linebreak_def is_space_def)

lemma is_linebreak_LF: "is_linebreak LF"
  by (simp add: is_linebreak_def)

lemma is_linebreak_CR: "is_linebreak CR"
  by (simp add: is_linebreak_def)

lemma is_space_LF: "is_space LF"
  by (simp add: is_space_def)

lemma lower_dropWhile: "lower (dropWhile is_space s) = dropWhile is_space (lower s)"
  by (simp add: lower_def dropWhile_map comp_def is_space_lower_char)

lemma lower_rev: "lower (rev s) = rev (lower s)"
  by (simp add: lower_def rev_map)

lemma startswith_prefix: "startswith s p = prefix p s"
  by (induction s p rule: startswith.induct) auto

lemma contains_sublist: "contains s p = sublist p s"
  by (induction s) (auto simp: startswith_prefix sublist_Cons_right)

lemma split_acc_spaces: "list_all is_space w \<Longrightarrow> split_acc cur w = (if cur = [] then [] else [cur])"
  by (induction w arbitrary: cur) auto

lemma split_acc_append_spaces: "list_all is_space w \<Longrightarrow> split_acc cur (l @ w) = split_acc cur l"
  by (induction l arbitrary: cur) (auto simp: split_acc_spaces)

lemma split_ws_dropWhile: "split_ws (dropWhile is_space l) = split_ws l"
  unfolding split_ws_def by (induction l) auto

lemma rstrip_decomp: "l = rev (dropWhile P (rev l)) @ rev (takeWhile P (rev l))"
  by (metis rev_append rev_rev_ident takeWhile_dropWhile_id)

lemma split_ws_rstrip: "split_ws (rev (dropWhile is_space (rev l))) = split_ws l"
proof -
  have "list_all is_space (rev (takeWhile is_space (rev l)))"
    by (simp add: list_all_iff) (meson set_takeWhileD)
  then show ?thesis
    unfolding split_ws_def using split_acc_append_spaces rstrip_decomp by metis
qed

lemma splitlines_acc_nobreak:
  "\<not> is_linebreak c \<Longrightarrow> splitlines_acc cur (c # cs) = splitlines_acc (cur @ [c]) cs"
  by (cases cs) (auto simp: is_linebreak_CR)

lemma splitlines_acc_LF: "splitlines_acc cur (LF # cs) = cur # splitlines_acc [] cs"
  by (cases cs) (auto simp: is_linebreak_LF)

lemma splitlines_acc_append:
  "list_all (\<lambda>c. \<not> is_linebreak c) l \<Longrightarrow> splitlines_acc cur (l @ rest) = splitlines_acc (cur @ l) rest"
  by (induction l arbitrary: cur) (auto simp: splitlines_acc_nobreak simp del: splitlines_acc.simps)

lemma splitlines_join:
  "list_all (list_all (\<lambda>c. \<not> is_linebreak c)) ls \<Longrightarrow>
   splitlines (join [LF] ls) = (if ls \<noteq> [] \<and> last ls = [] then butlast ls else ls)"
proof (induction "[LF]" ls rule: join.induct)
  case 1
  then show ?case by (simp add: splitlines_def)
next
  case (2 x)
  then show ?case
    using splitlines_acc_append[of x "[]" "[]"] by (simp add: splitlines_def)
next
  case (3 x y ys)
  have bf: "list_all (\<lambda>c. \<not> is_linebreak c) x" and rest: "list_all (list_all (\<lambda>c. \<not> is_linebreak c)) (y # ys)"
    using 3(2) by simp_all
  have "splitlines (join [LF] (x # y # ys)) = splitlines_acc [] (x @ LF # join [LF] (y # ys))"
    by (simp add: splitlines_def)
  also have "\<dots> = splitlines_acc x (LF # join [LF] (y # ys))"
    using splitlines_acc_append[OF bf, of "[]"] by simp
  also have "\<dots> = x # splitlines (join [LF] (y # ys))"
    by (simp only: splitlines_acc_LF splitlines_def)
  also have "\<dots> = x # (if last (y # ys) = [] then butlast (y # ys) else y # ys)"
    using 3(1)[OF rest] by simp
  finally show ?case by simp
qed

lemma splitlines_acc_break_free:
  "list_all (\<lambda>c. \<not> is_linebreak c) cur \<Longrightarrow>
   list_all (list_all (\<lambda>c. \<not> is_linebreak c)) (splitlines_acc cur s)"
  by (induction cur s rule: splitlines_acc.induct) auto

lemma splitlines_break_free: "list_all (list_all (\<lambda>c. \<not> is_linebreak c)) (splitlines s)"
  by (simp add: splitlines_def splitlines_acc_break_free)

lemma join_Cons: "join sep (x # xs) = (if xs = [] then x else x @ sep @ join sep xs)"
  by (cases xs) auto

lemma join_snoc: "join sep (xs @ [x]) = (if xs = [] then x else join sep xs @ sep @ x)"
  by (induction sep xs rule: join.induct) (auto simp: join_Cons)

lemma rev_join: "rev (join [c] ls) = join [c] (rev (map rev ls))"
  by (induction ls) (simp_all add: join_Cons join_snoc)

lemma strip_all_space: "list_all is_space s \<Longrightarrow> strip s = []"
proof -
  assume "list_all is_space s"
  then have h: "dropWhile is_space s = []" by (induction s) auto
  show ?thesis unfolding strip_def h by simp
qed

lemma strip_append_spaces:
  assumes "list_all is_space w"
  shows "strip (s @ w) = strip s"
proof (cases "list_all is_space s")
  case True
  with assms show ?thesis by (simp add: strip_all_space)
next
  case False
  then have "dropWhile is_space (s @ w) = dropWhile is_space s @ w"
    by (auto simp: list_all_iff)
  moreover have "dropWhile is_space (rev w @ r) = dropWhile is_space r" for r
    using assms by (simp add: list_all_iff dropWhile_append)
  ultimately show ?thesis by (simp add: strip_def)
qed

lemma strip_dropWhile: "strip (dropWhile is_space s) = strip s"
  by (simp add: strip_def)

lemma strip_rstrip: "strip (rev (dropWhile is_space (rev s))) = strip s"
proof -
  have "list_all is_space (rev (takeWhile is_space (rev s)))"
    by (simp add: list_all_iff) (meson set_takeWhileD)
  then show ?thesis
    using strip_append_spaces rstrip_decomp by metis
qed

lemma last_dropWhile: "dropWhile P xs \<noteq> [] \<Longrightarrow> last (dropWhile P xs) = last xs"
  by (metis last_appendR takeWhile_dropWhile_id)

lemma strip_idem: "strip (strip s) = strip s"
proof -
  define y where "y = dropWhile is_space s"
  define z where "z = dropWhile is_space (rev y)"
  have s: "strip s = rev z" by (simp add: strip_def y_def z_def)
  have a: "dropWhile is_space (rev z) = rev z"
  proof (cases "z = []")
    case True then show ?thesis by simp
  next
    case False
    then have "last z = last (rev y)" unfolding z_def by (rule last_dropWhile)
    moreover from False have "y \<noteq> []" by (auto simp: z_def)
    ultimately have "last z = hd y" by (simp add: last_rev)
    moreover have "\<not> is_space (hd y)" using \<open>y \<noteq> []\<close> unfolding y_def by (rule hd_dropWhile)
    ultimately have "\<not> is_space (hd (rev z))" using False by (simp add: hd_rev)
    with False show ?thesis by (cases "rev z") auto
  qed
  have b: "dropWhile is_space z = z" by (simp add: z_def)
  have "strip (rev z) = rev z"
    unfolding strip_def a by (simp add: b)
  then show ?thesis by (simp only: s)
qed

lemma sublist_dropWhile:
  "p \<noteq> [] \<Longrightarrow> \<not> P (hd p) \<Longrightarrow> sublist p (dropWhile P s) = sublist p s"
  by (induction s) (auto simp: sublist_Cons_right prefix_Cons)

lemma sublist_rstrip:
  assumes "p \<noteq> []" "\<not> P (last p)"
  shows "sublist p (rev (dropWhile P (rev s))) = sublist p s"
proof -
  have "sublist p (rev (dropWhile P (rev s))) = sublist (rev p) (dropWhile P (rev s))"
    by (simp add: sublist_rev_right)
  also have "\<dots> = sublist (rev p) (rev s)"
    using assms by (intro sublist_dropWhile) (simp_all add: hd_rev)
  finally show ?thesis by simp
qed

lemma cookie_patterns_ends:
  "list_all (\<lambda>p. p \<noteq> [] \<and> \<not> is_space (hd p) \<and> \<not> is_space (last p)) cookie_patterns"
  by (simp add: cookie_patterns_def is_space_def)

lemma list_ex_sublist_lstrip:
  "list_all (\<lambda>p. p \<noteq> [] \<and> \<not> P (hd p) \<and> \<not> P (last p)) ps \<Longrightarrow>
   list_ex (\<lambda>pat. sublist pat (dropWhile P s)) ps = list_ex (\<lambda>pat. sublist pat s) ps"
  by (induction ps) (auto simp: sublist_dropWhile)

lemma list_ex_sublist_rstrip:
  "list_all (\<lambda>p. p \<noteq> [] \<and> \<not> P (hd p) \<and> \<not> P (last p)) ps \<Longrightarrow>
   list_ex (\<lambda>pat. sublist pat (rev (dropWhile P (rev s)))) ps = list_ex (\<lambda>pat. sublist pat s) ps"
  by (induction ps) (auto simp: sublist_rstrip)

lemma cookie_line_lstrip: "cookie_line (dropWhile is_space l) = cookie_line l"
proof -
  have "list_ex (\<lambda>pat. sublist pat (dropWhile is_space s)) cookie_patterns
      = list_ex (\<lambda>pat. sublist pat s) cookie_patterns" for s
    using cookie_patterns_ends by (rule list_ex_sublist_lstrip)
  then show ?thesis
    by (simp add: cookie_line_def re_search_def contains_sublist lower_dropWhile split_ws_dropWhile)
qed

lemma cookie_line_rstrip: "cookie_line (rev (dropWhile is_space (rev l))) = cookie_line l"
proof -
  have "list_ex (\<lambda>pat. sublist pat (rev (dropWhile is_space (rev s)))) cookie_patterns
      = list_ex (\<lambda>pat. sublist pat s) cookie_patterns" for s
    using cookie_patterns_ends by (rule list_ex_sublist_rstrip)
  then show ?thesis
    by (simp add: cookie_line_def re_search_def contains_sublist lower_dropWhile lower_rev split_ws_rstrip)
qed

lemma nav_line_lstrip: "nav_line (dropWhile is_space l) = nav_line l"
  by (simp add: nav_line_def lower_dropWhile strip_dropWhile)

lemma nav_line_rstrip: "nav_line (rev (dropWhile is_space (rev l))) = nav_line l"
  by (simp add: nav_line_def lower_dropWhile lower_rev strip_rstrip)

lemma nav_line_Nil: "\<not> nav_line []"
  by (simp add: nav_line_def lower_def strip_def nav_phrases_def)

lemma lstrip_join:
  assumes "list_all P ls" and "\<And>l. P l \<Longrightarrow> P (dropWhile is_space l)"
  shows "\<exists>ls'. dropWhile is_space (join [LF] ls) = join [LF] ls' \<and> list_all P ls' \<and>
           (ls' = [] \<or> hd ls' \<noteq> [])"
  using assms(1)
proof (induction ls)
  case Nil
  show ?case by (rule exI[of _ "[]"]) simp
next
  case (Cons l ls)
  show ?case
  proof (cases "list_all is_space l")
    case True
    then have dl: "dropWhile is_space (l @ r) = dropWhile is_space r" for r
      by (simp add: list_all_iff dropWhile_append)
    show ?thesis
    proof (cases "ls = []")
      case True
      with dl[of "[]"] show ?thesis by (intro exI[of _ "[]"]) simp
    next
      case False
      then have "dropWhile is_space (join [LF] (l # ls)) = dropWhile is_space (join [LF] ls)"
        using dl[of "LF # join [LF] ls"] by (simp add: join_Cons is_space_LF)
      with Cons show ?thesis by simp
    qed
  next
    case False
    then have ne: "dropWhile is_space l \<noteq> []"
      by (simp add: list_all_iff)
    from False have "dropWhile is_space (l @ r) = dropWhile is_space l @ r" for r
      by (auto simp: list_all_iff)
    then have "dropWhile is_space (join [LF] (l # ls)) = join [LF] (dropWhile is_space l # ls)"
      by (simp add: join_Cons)
    moreover have "list_all P (dropWhile is_space l # ls)"
      using Cons.prems assms(2) by simp
    ultimately show ?thesis using ne
      by (intro exI[of _ "dropWhile is_space l # ls"]) simp
  qed
qed

lemma strip_join:
  assumes P: "list_all P ls"
    and l: "\<And>l. P l \<Longrightarrow> P (dropWhile is_space l)"
    and r: "\<And>l. P l \<Longrightarrow> P (rev (dropWhile is_space (rev l)))"
  shows "\<exists>ls'. strip (join [LF] ls) = join [LF] ls' \<and> list_all P ls' \<and>
           (ls' = [] \<or> last ls' \<noteq> [])"
proof -
  from lstrip_join[of P ls, OF P l] obtain ks where
    ks: "dropWhile is_space (join [LF] ls) = join [LF] ks" "list_all P ks"
    by blast
  have "list_all (\<lambda>l. P (rev l)) (rev (map rev ks))"
    using ks(2) by (simp add: list_all_iff)
  from lstrip_join[of "\<lambda>l. P (rev l)" "rev (map rev ks)", OF this]
  obtain ms where ms: "dropWhile is_space (join [LF] (rev (map rev ks))) = join [LF] ms"
    "list_all (\<lambda>l. P (rev l)) ms" "ms = [] \<or> hd ms \<noteq> []"
    using r by (metis rev_rev_ident)
  have "strip (join [LF] ls) = rev (dropWhile is_space (rev (join [LF] ks)))"
    by (simp add: strip_def ks(1))
  also have "\<dots> = join [LF] (rev (map rev ms))"
    by (simp add: rev_join ms(1))
  finally have "strip (join [LF] ls) = join [LF] (rev (map rev ms))" .
  moreover have "list_all P (rev (map rev ms))"
    using ms(2) by (simp add: list_all_iff)
  moreover have "rev (map rev ms) = [] \<or> last (rev (map rev ms)) \<noteq> []"
    using ms(3) by (cases ms) (auto simp: last_rev)
  ultimately show ?thesis by blast
qed

lemma clean_extracted_text_lines:
  "clean_extracted_text t =
     strip (join [LF] (filter (\<lambda>l. \<not> cookie_line l \<and> \<not> nav_line l) (splitlines t)))"
proof -
  define K where "K = filter (\<lambda>l. \<not> cookie_line l) (splitlines t)"
  have bf: "list_all (list_all (\<lambda>c. \<not> is_linebreak c)) K"
    using splitlines_break_free[of t] by (auto simp: K_def list_all_iff)
  have ff: "filter (\<lambda>l. \<not> nav_line l) K = filter (\<lambda>l. \<not> cookie_line l \<and> \<not> nav_line l) (splitlines t)"
    by (simp add: K_def conj_commute)
  have "strip (join [LF] (filter (\<lambda>l. \<not> nav_line l) (splitlines (join [LF] K))))
      = strip (join [LF] (filter (\<lambda>l. \<not> nav_line l) K))"
  proof (cases "K \<noteq> [] \<and> last K = []")
    case True
    then have K: "K = butlast K @ [[]]"
      by (metis append_butlast_last_id)
    have "filter (\<lambda>l. \<not> nav_line l) K = filter (\<lambda>l. \<not> nav_line l) (butlast K) @ [[]]"
      by (subst K) (simp add: nav_line_Nil)
    then have "strip (join [LF] (filter (\<lambda>l. \<not> nav_line l) K))
      = strip (join [LF] (filter (\<lambda>l. \<not> nav_line l) (butlast K)))"
      using strip_append_spaces[of "[LF]"] by (simp add: join_snoc is_space_LF)
    with True show ?thesis by (simp add: splitlines_join[OF bf])
  next
    case False
    then show ?thesis by (auto simp: splitlines_join[OF bf])
  qed
  then show ?thesis
    by (simp add: clean_extracted_text_def remove_navigation_def remove_cookie_banners_def
        K_def[symmetric] ff[symmetric])
qed

lemma clean_extracted_text_fixpoint: "clean_extracted_text (clean_extracted_text t) = clean_extracted_text t"
proof -
  define keep where "keep = (\<lambda>l. \<not> cookie_line l \<and> \<not> nav_line l)"
  define P where "P = (\<lambda>l. list_all (\<lambda>c. \<not> is_linebreak c) l \<and> keep l)"
  define K where "K = filter keep (splitlines t)"
  have c: "clean_extracted_text u = strip (join [LF] (filter keep (splitlines u)))" for u
    by (simp add: clean_extracted_text_lines keep_def)
  have "list_all P K"
    using splitlines_break_free[of t] by (auto simp: K_def P_def list_all_iff)
  moreover have "P (dropWhile is_space l)" if "P l" for l
    using that by (auto simp: P_def keep_def cookie_line_lstrip nav_line_lstrip list_all_iff dest: set_dropWhileD)
  moreover have "P (rev (dropWhile is_space (rev l)))" if "P l" for l
    using that by (auto simp: P_def keep_def cookie_line_rstrip nav_line_rstrip list_all_iff dest: set_dropWhileD)
  ultimately obtain ls where ls: "strip (join [LF] K) = join [LF] ls" "list_all P ls"
     "ls = [] \<or> last ls \<noteq> []"
    using strip_join[of P K] by blast
  have bf: "list_all (list_all (\<lambda>c. \<not> is_linebreak c)) ls"
    using ls(2) by (simp add: P_def list_all_iff)
  have "splitlines (join [LF] ls) = ls"
    using ls(3) by (auto simp: splitlines_join[OF bf])
  moreover have "filter keep ls = ls"
    using ls(2) by (simp add: P_def list_all_iff)
  ultimately have "clean_extracted_text (join [LF] ls) = strip (join [LF] ls)"
    by (simp add: c)
  also have "\<dots> = join [LF] ls"
    by (simp add: ls(1)[symmetric] strip_idem)
  finally show ?thesis
    by (simp add: c[of t] K_def[symmetric] ls(1))
qed

section \<open>Facts about the pipeline\<close>

lemma try_strategies_first_valid:
  "all_fail e u pre s \<Longrightarrow> attempt e strat u (after_failures u pre s) = Inr a \<Longrightarrow>
   is_valid_content a 50 \<Longrightarrow>
   try_strategies e u (pre @ strat # post) s = (a, called strat u (after_failures u pre s))"
  by (induction pre arbitrary: s) (auto simp: fails_def split: sum.splits)

lemma try_strategies_all_fail:
  "all_fail e u sts s \<Longrightarrow>
   try_strategies e u sts s = (''Failed to extract valid content.'', after_failures u sts s)"
  by (induction sts arbitrary: s) (auto simp: fails_def split: sum.splits)

lemma sentinel_invalid: "\<not> is_valid_content ''Failed to extract valid content.'' 50"
  by code_simp

lemma try_strategies_valid_or_sentinel:
  "try_strategies e u sts s = (c, s') \<Longrightarrow>
   (all_fail e u sts s \<and> c = ''Failed to extract valid content.'') \<or>
   (\<not> all_fail e u sts s \<and> is_valid_content c 50)"
  by (induction sts arbitrary: s) (auto simp: fails_def split: sum.splits if_splits)

lemma calls_after_failures:
  "calls (after_failures u sts s) = calls s @ map (\<lambda>st. (st, u)) sts"
  by (induction sts arbitrary: s) (auto simp: sleep_def called_def)

lemma try_strategies_calls:
  "\<exists>n\<le>length sts. calls (snd (try_strategies e u sts s)) = calls s @ map (\<lambda>st. (st, u)) (take n sts)"
proof (induction sts arbitrary: s)
  case Nil
  then show ?case by simp
next
  case (Cons st sts)
  let ?s1 = "sleep 1 (called st u s)"
  from Cons[of ?s1] obtain n where n: "n \<le> length sts"
    "calls (snd (try_strategies e u sts ?s1)) = calls ?s1 @ map (\<lambda>st. (st, u)) (take n sts)"
    by blast
  have c1: "calls ?s1 = calls s @ [(st, u)]" by (simp add: sleep_def called_def)
  show ?case
  proof (cases "fails e st u s")
    case True
    then have "try_strategies e u (st # sts) s = try_strategies e u sts ?s1"
      by (auto simp: fails_def split: sum.splits)
    with n c1 show ?thesis
      by (intro exI[of _ "Suc n"]) simp
  next
    case False
    then have "calls (snd (try_strategies e u (st # sts) s)) = calls s @ [(st, u)]"
      by (auto simp: fails_def called_def split: sum.splits)
    then show ?thesis
      by (intro exI[of _ "Suc 0"]) simp
  qed
qed

lemma stored_urls_append: "stored_urls (a @ b) = stored_urls a @ stored_urls b"
  by (simp add: stored_urls_def)

lemma set_stored_urls: "u \<in> set (stored_urls rows) \<longleftrightarrow> Some u \<in> set (map url rows)"
  by (induction rows) (auto simp: stored_urls_def split: option.splits)

lemma db_commit_unique:
  "db_commit e rows new = Inr rows' \<Longrightarrow> distinct (stored_urls rows) \<Longrightarrow> distinct (stored_urls rows')"
  by (auto simp: db_commit_def stored_urls_append set_stored_urls split: if_splits)
     (auto simp: stored_urls_def split: option.splits)

lemma try_strategies_db: "db (snd (try_strategies e u sts s)) = db s"
  by (induction sts arbitrary: s) (auto simp: sleep_def called_def split: sum.splits)

lemma try_strategies_redis: "redis (snd (try_strategies e u sts s)) = redis s"
  by (induction sts arbitrary: s) (auto simp: sleep_def called_def split: sum.splits)

lemma persist_result_unique:
  "distinct (stored_urls (db s)) \<Longrightarrow> distinct (stored_urls (db (persist_result e q r c s)))"
  by (auto simp: persist_result_def Let_def split: sum.splits dest: db_commit_unique)

lemma persist_result_calls: "calls (persist_result e q r c s) = calls s"
  by (auto simp: persist_result_def Let_def split: sum.splits)

lemma persist_result_redis_mono:
  "redis_exists (redis s) k \<Longrightarrow> redis_exists (redis (persist_result e q r c s)) k"
  by (auto simp: persist_result_def Let_def redis_exists_def redis_set_def split: sum.splits)

lemma try_scrape_db: "try_scrape e u s = (c, s1) \<Longrightarrow> db s1 = db s"
  using try_strategies_db[of e u "strategies e" s] by (simp add: try_scrape_def)

lemma try_scrape_redis: "try_scrape e u s = (c, s1) \<Longrightarrow> redis s1 = redis s"
  using try_strategies_redis[of e u "strategies e" s] by (simp add: try_scrape_def)

lemma loop_body_unique:
  assumes d: "distinct (stored_urls (db s))"
  shows "distinct (stored_urls (db (loop_body e q ex r s)))"
proof (cases "map_of r ''url''")
  case None
  with d show ?thesis by (simp add: loop_body_def)
next
  case (Some u)
  obtain c s1 where t: "try_scrape e u s = (c, s1)" by (cases "try_scrape e u s")
  then have "distinct (stored_urls (db s1))" using d by (simp add: try_scrape_db)
  then have "distinct (stored_urls (db (persist_result e q r c s1)))"
    by (rule persist_result_unique)
  with Some t d \<open>distinct (stored_urls (db s1))\<close> show ?thesis
    by (simp add: loop_body_def sleep_def Let_def)
qed

lemma per_url_loop_unique:
  "distinct (stored_urls (db s)) \<Longrightarrow> distinct (stored_urls (db (per_url_loop e q ex rs s)))"
  by (induction rs arbitrary: s) (auto simp: loop_body_unique)

lemma search_and_scrape_unique:
  "distinct (stored_urls (db s)) \<Longrightarrow> distinct (stored_urls (db (search_and_scrape e q s)))"
  by (auto simp: search_and_scrape_def per_url_loop_unique split: sum.splits)

lemma scrape_query_unique:
  "distinct (stored_urls (db s)) \<Longrightarrow> distinct (stored_urls (db (snd (scrape_query e arg s))))"
  by (auto simp: scrape_query_def answer_uncached_def Let_def search_and_scrape_unique
      split: option.splits)

lemma serve_unique:
  "distinct (stored_urls (db s)) \<Longrightarrow> distinct (stored_urls (db (serve reqs s)))"
  by (induction reqs arbitrary: s) (auto simp: scrape_query_unique)

lemma unique_at_most_one:
  "distinct (stored_urls rows) \<Longrightarrow> length (filter (\<lambda>row. url row = Some u) rows) \<le> 1"
proof (induction rows)
  case Nil
  then show ?case by simp
next
  case (Cons a rows)
  then have d: "distinct (stored_urls rows)"
    by (simp add: stored_urls_def)
  show ?case
  proof (cases "url a = Some u")
    case True
    with Cons.prems have "u \<notin> set (stored_urls rows)"
      by (simp add: stored_urls_def)
    then have "filter (\<lambda>row. url row = Some u) rows = []"
      by (force simp: set_stored_urls filter_empty_conv)
    with True show ?thesis by simp
  next
    case False
    with Cons.IH[OF d] show ?thesis by simp
  qed
qed

lemma scraped_key_inj: "scraped_key v = scraped_key u \<longleftrightarrow> v = u"
  by (simp add: scraped_key_def)

lemma try_strategies_fetched:
  "v \<noteq> u \<Longrightarrow> fetched u (snd (try_strategies e v sts s)) = fetched u s"
  using try_strategies_calls[of sts e v s] by (auto simp: fetched_def)

lemma try_scrape_fetched:
  "try_scrape e v s = (c, s1) \<Longrightarrow> v \<noteq> u \<Longrightarrow> fetched u s1 = fetched u s"
  using try_strategies_fetched[of v u e "strategies e" s] by (simp add: try_scrape_def)

lemma candidate_urls_Nil: "candidate_urls [] = []"
  by (simp add: candidate_urls_def)

lemma candidate_urls_Cons:
  "candidate_urls (r # rs) =
     (case map_of r ''url'' of None \<Rightarrow> [] | Some u \<Rightarrow> if u = [] then [] else [u]) @ candidate_urls rs"
  by (simp add: candidate_urls_def)

lemma set_candidate_urls:
  "u \<in> set (candidate_urls rs) \<longleftrightarrow> u \<noteq> [] \<and> (\<exists>r\<in>set rs. map_of r ''url'' = Some u)"
proof (induction rs)
  case Nil
  show ?case by (simp add: candidate_urls_Nil)
next
  case (Cons r rs)
  show ?case
  proof (cases "map_of r ''url''")
    case None
    with Cons show ?thesis by (simp add: candidate_urls_Cons)
  next
    case (Some v)
    with Cons show ?thesis by (cases "v = []") (auto simp: candidate_urls_Cons)
  qed
qed

lemma loop_body_other:
  assumes "map_of r ''url'' \<noteq> Some u \<or> u = [] \<or> redis_exists (redis s) (scraped_key u) \<or> u \<in> set ex"
  shows "fetched u (loop_body e q ex r s) = fetched u s"
    and "redis_exists (redis s) k \<Longrightarrow> redis_exists (redis (loop_body e q ex r s)) k"
proof -
  show "redis_exists (redis s) k \<Longrightarrow> redis_exists (redis (loop_body e q ex r s)) k"
  proof (cases "map_of r ''url''")
    case None
    then show "redis_exists (redis s) k \<Longrightarrow> ?thesis" by (simp add: loop_body_def)
  next
    case (Some v)
    obtain c s1 where t: "try_scrape e v s = (c, s1)" by (cases "try_scrape e v s")
    assume k: "redis_exists (redis s) k"
    then have "redis_exists (redis s1) k" using t by (simp add: try_scrape_redis)
    then have "redis_exists (redis (persist_result e q r c s1)) k"
      by (rule persist_result_redis_mono)
    with Some t k \<open>redis_exists (redis s1) k\<close> show ?thesis
      by (simp add: loop_body_def sleep_def Let_def redis_exists_def redis_set_def)
  qed
  show "fetched u (loop_body e q ex r s) = fetched u s"
  proof (cases "map_of r ''url''")
    case None
    then show ?thesis by (simp add: loop_body_def)
  next
    case (Some v)
    obtain c s1 where t: "try_scrape e v s = (c, s1)" by (cases "try_scrape e v s")
    show ?thesis
    proof (cases "v = u")
      case True
      with Some assms show ?thesis by (auto simp: loop_body_def)
    next
      case False
      with t have "fetched u s1 = fetched u s" by (rule try_scrape_fetched)
      with Some t show ?thesis
        by (simp add: loop_body_def sleep_def Let_def fetched_def persist_result_calls)
    qed
  qed
qed

lemma per_url_loop_no_fetch:
  "redis_exists (redis s) (scraped_key u) \<or> u \<in> set ex \<or> u \<notin> set (candidate_urls rs) \<Longrightarrow>
   fetched u (per_url_loop e q ex rs s) = fetched u s"
proof (induction rs arbitrary: s)
  case Nil
  then show ?case by simp
next
  case (Cons r rs)
  have a: "map_of r ''url'' \<noteq> Some u \<or> u = [] \<or> redis_exists (redis s) (scraped_key u) \<or> u \<in> set ex"
    using Cons.prems by (auto simp: set_candidate_urls)
  have b: "redis_exists (redis (loop_body e q ex r s)) (scraped_key u) \<or> u \<in> set ex \<or>
           u \<notin> set (candidate_urls rs)"
    using Cons.prems loop_body_other(2)[OF a, of "scraped_key u"] by (auto simp: set_candidate_urls)
  show ?case
    using Cons.IH[OF b] loop_body_other(1)[OF a] by simp
qed

lemma get_existing_urls_mem:
  "u \<in> set (get_existing_urls rows urls) \<longleftrightarrow> Some u \<in> set (map url rows) \<and> u \<in> set urls"
  by (induction rows) (auto simp: get_existing_urls_def split: option.splits)

lemma search_and_scrape_no_fetch:
  "redis_exists (redis s) (scraped_key u) \<or> Some u \<in> set (map url (db s)) \<Longrightarrow>
   fetched u (search_and_scrape e q s) = fetched u s"
  unfolding search_and_scrape_def
  by (auto split: sum.splits intro!: per_url_loop_no_fetch simp: get_existing_urls_mem)

lemma persist_result_db_mono: "set (db s) \<subseteq> set (db (persist_result e q r c s))"
  by (auto simp: persist_result_def db_commit_def Let_def split: sum.splits if_splits)

lemma loop_body_db_mono: "set (db s) \<subseteq> set (db (loop_body e q ex r s))"
proof (cases "map_of r ''url''")
  case None
  then show ?thesis by (simp add: loop_body_def)
next
  case (Some u)
  obtain c s1 where t: "try_scrape e u s = (c, s1)" by (cases "try_scrape e u s")
  then have "db s1 = db s" by (rule try_scrape_db)
  with persist_result_db_mono[of s1 e q r c] Some t show ?thesis
    by (simp add: loop_body_def sleep_def Let_def)
qed

lemma per_url_loop_db_mono: "set (db s) \<subseteq> set (db (per_url_loop e q ex rs s))"
proof (induction rs arbitrary: s)
  case Nil
  show ?case by simp
next
  case (Cons r rs)
  from loop_body_db_mono[of s e q ex r] Cons[of "loop_body e q ex r s"] show ?case
    by simp
qed

lemma search_and_scrape_db_mono: "set (db s) \<subseteq> set (db (search_and_scrape e q s))"
  by (simp add: search_and_scrape_def per_url_loop_db_mono split: sum.splits)

lemma scrape_query_db:
  "db (snd (scrape_query e arg s)) = db s \<or>
   db (snd (scrape_query e arg s)) = db (search_and_scrape e (strip (case arg of None \<Rightarrow> [] | Some v \<Rightarrow> v)) s)"
  by (simp add: scrape_query_def answer_uncached_def Let_def split: option.splits)

lemma scrape_query_calls:
  "calls (snd (scrape_query e arg s)) = calls s \<or>
   calls (snd (scrape_query e arg s)) = calls (search_and_scrape e (strip (case arg of None \<Rightarrow> [] | Some v \<Rightarrow> v)) s)"
  by (simp add: scrape_query_def answer_uncached_def Let_def split: option.splits)

lemma scrape_query_durable:
  assumes "Some u \<in> set (map url (db s))"
  shows "Some u \<in> set (map url (db (snd (scrape_query e arg s))))"
    and "fetched u (snd (scrape_query e arg s)) = fetched u s"
proof -
  let ?q = "strip (case arg of None \<Rightarrow> [] | Some v \<Rightarrow> v)"
  have "Some u \<in> set (map url (db (search_and_scrape e ?q s)))"
    using assms search_and_scrape_db_mono[of s e ?q] by auto
  with scrape_query_db[of e arg s] assms
  show "Some u \<in> set (map url (db (snd (scrape_query e arg s))))" by auto
  have "fetched u (search_and_scrape e ?q s) = fetched u s"
    using assms by (intro search_and_scrape_no_fetch) simp
  with scrape_query_calls[of e arg s]
  show "fetched u (snd (scrape_query e arg s)) = fetched u s"
    by (auto simp: fetched_def)
qed

lemma serve_durable:
  "Some u \<in> set (map url (db s)) \<Longrightarrow> fetched u (serve reqs s) = fetched u s"
proof (induction reqs arbitrary: s)
  case Nil
  show ?case by simp
next
  case (Cons a reqs)
  obtain e arg where a: "a = (e, arg)" by (cases a)
  from scrape_query_durable[OF Cons.prems, of e arg] Cons.IH[of "snd (scrape_query e arg s)"] a
  show ?case by simp
qed

lemma try_scrape_reports_failure_iff:
  "fst (try_scrape e u s) = ''Failed to extract valid content.'' \<longleftrightarrow>
   all_fail e u (strategies e) s"
  using try_strategies_valid_or_sentinel[of e u "strategies e" s "fst (try_scrape e u s)"
      "snd (try_scrape e u s)"] sentinel_invalid
  by (auto simp: try_scrape_def)

lemma loop_body_skip:
  "map_of r ''url'' = Some u \<Longrightarrow> redis_exists (redis s) (scraped_key u) \<or> u \<in> set ex \<Longrightarrow>
   loop_body e q ex r s = s"
  by (auto simp: loop_body_def)

lemma loop_body_persisted:
  assumes "map_of r ''url'' = Some u" "u \<noteq> []"
    "\<not> redis_exists (redis s) (scraped_key u)" "u \<notin> set ex"
    "try_scrape e u s = (content, s1)" "\<not> contains content ''Failed''"
    "db_commit e (db s) (new_row e q r content) = Inr rows"
  shows "db (loop_body e q ex r s) = db s @ [new_row e q r content]"
    and "redis (loop_body e q ex r s) (scraped_key u) = Some (''1'', 86400)"
proof -
  have d: "db s1 = db s" using assms(5) by (rule try_scrape_db)
  have rows: "rows = db s @ [new_row e q r content]"
    using assms(7) by (auto simp: db_commit_def split: if_splits)
  show "db (loop_body e q ex r s) = db s @ [new_row e q r content]"
    using assms rows by (simp add: loop_body_def persist_result_def sleep_def Let_def d)
  show "redis (loop_body e q ex r s) (scraped_key u) = Some (''1'', 86400)"
    using assms by (simp add: loop_body_def persist_result_def sleep_def Let_def d redis_set_def)
qed

lemma loop_body_write_failed:
  assumes "map_of r ''url'' = Some u" "u \<noteq> []"
    "\<not> redis_exists (redis s) (scraped_key u)" "u \<notin> set ex"
    "try_scrape e u s = (content, s1)" "\<not> contains content ''Failed''"
    "db_commit e (db s) (new_row e q r content) = Inl x"
  shows "db (loop_body e q ex r s) = db s"
    and "redis (loop_body e q ex r s) (scraped_key u) = Some (''1'', 86400)"
proof -
  have d: "db s1 = db s" using assms(5) by (rule try_scrape_db)
  show "db (loop_body e q ex r s) = db s"
    using assms by (simp add: loop_body_def persist_result_def sleep_def Let_def d)
  show "redis (loop_body e q ex r s) (scraped_key u) = Some (''1'', 86400)"
    using assms by (simp add: loop_body_def persist_result_def sleep_def Let_def d redis_set_def)
qed

lemma like_plain_append:
  "plain_query p \<Longrightarrow> like (p @ rest) s = (prefix p s \<and> like rest (drop (length p) s))"
proof (induction p arbitrary: s)
  case Nil
  show ?case by simp
next
  case (Cons c p)
  then have c: "c \<noteq> CHR ''%''" "c \<noteq> CHR ''_''" "c \<noteq> CHR 0x5C" and p: "plain_query p"
    by (simp_all add: plain_query_def)
  show ?case
  proof (cases s)
    case Nil
    with c show ?thesis by simp
  next
    case (Cons d ds)
    with c Cons.IH[OF p, of ds] show ?thesis by auto
  qed
qed

lemma like_percent: "like (CHR ''%'' # rest) s = (\<exists>n\<le>length s. like rest (drop n s))"
proof (induction s)
  case Nil
  show ?case by simp
next
  case (Cons d ds)
  have "(\<exists>n\<le>length (d # ds). like rest (drop n (d # ds))) =
        (like rest (d # ds) \<or> (\<exists>n\<le>length ds. like rest (drop n ds)))"
  proof
    assume "\<exists>n\<le>length (d # ds). like rest (drop n (d # ds))"
    then obtain n where n: "n \<le> length (d # ds)" "like rest (drop n (d # ds))" by blast
    show "like rest (d # ds) \<or> (\<exists>n\<le>length ds. like rest (drop n ds))"
    proof (cases n)
      case 0
      with n show ?thesis by simp
    next
      case (Suc m)
      with n show ?thesis by auto
    qed
  next
    assume "like rest (d # ds) \<or> (\<exists>n\<le>length ds. like rest (drop n ds))"
    then show "\<exists>n\<le>length (d # ds). like rest (drop n (d # ds))"
    proof
      assume "like rest (d # ds)"
      then show ?thesis by (intro exI[of _ 0]) simp
    next
      assume "\<exists>n\<le>length ds. like rest (drop n ds)"
      then obtain n where "n \<le> length ds" "like rest (drop n ds)" by blast
      then show ?thesis by (intro exI[of _ "Suc n"]) simp
    qed
  qed
  with Cons show ?case by simp
qed

lemma like_percent_only: "like ''%'' s"
  by (induction s) auto

lemma sublist_drop: "sublist p s = (\<exists>n\<le>length s. prefix p (drop n s))"
proof
  assume "sublist p s"
  then obtain ps ss where "s = ps @ p @ ss" by (auto simp: sublist_def)
  then show "\<exists>n\<le>length s. prefix p (drop n s)"
    by (intro exI[of _ "length ps"]) simp
next
  assume "\<exists>n\<le>length s. prefix p (drop n s)"
  then obtain n ss where "drop n s = p @ ss" by (auto simp: prefix_def)
  then have "s = take n s @ p @ ss" by (metis append_take_drop_id)
  then show "sublist p s" by (auto simp: sublist_def)
qed

lemma like_substring:
  "plain_query p \<Longrightarrow> like (CHR ''%'' # p @ ''%'') s = sublist p s"
proof -
  assume p: "plain_query p"
  have "like (p @ ''%'') t = prefix p t" for t
    using like_plain_append[OF p, of "''%''" t] like_percent_only by simp
  then show ?thesis
    by (simp only: like_percent[of "p @ ''%''" s] sublist_drop)
qed

lemma lower_char_meta:
  "lower_char c = CHR ''%'' \<longleftrightarrow> c = CHR ''%''"
  "lower_char c = CHR ''_'' \<longleftrightarrow> c = CHR ''_''"
  "lower_char c = CHR 0x5C \<longleftrightarrow> c = CHR 0x5C"
  by (auto simp: lower_char_def Let_def split: if_splits
      dest!: arg_cong[where f = "of_char :: char \<Rightarrow> nat"])

lemma plain_query_lower: "plain_query q \<Longrightarrow> plain_query (lower q)"
  by (induction q) (auto simp: plain_query_def lower_def lower_char_meta)

lemma ilike_substring:
  "plain_query q \<Longrightarrow> ilike t (''%'' @ q @ ''%'') = contains (lower t) (lower q)"
proof -
  assume "plain_query q"
  then have "plain_query (lower q)" by (rule plain_query_lower)
  moreover have "lower (''%'' @ q @ ''%'') = CHR ''%'' # lower q @ ''%''"
    by (simp add: lower_def lower_char_meta)
  ultimately show ?thesis
    by (simp add: ilike_def like_substring contains_sublist)
qed

lemma compress_results_lines:
  "\<exists>ls. compress_results e rs = join [LF] ls \<and> distinct ls \<and>
        set ls = (\<Union>r\<in>set rs. set (splitlines (extracted_content r)))"
  by (intro exI[of _ "sort_key (str_hash e)
        (remdups (concat (map (\<lambda>r. splitlines (extracted_content r)) rs)))"])
     (simp add: compress_results_def)

lemma compress_results_splitlines:
  assumes "[] \<notin> (\<Union>r\<in>set rs. set (splitlines (extracted_content r)))"
  shows "distinct (splitlines (compress_results e rs))"
    and "set (splitlines (compress_results e rs)) =
           (\<Union>r\<in>set rs. set (splitlines (extracted_content r)))"
proof -
  define ls where "ls = sort_key (str_hash e)
        (remdups (concat (map (\<lambda>r. splitlines (extracted_content r)) rs)))"
  have s: "set ls = (\<Union>r\<in>set rs. set (splitlines (extracted_content r)))"
    and d: "distinct ls" by (simp_all add: ls_def)
  have "list_all (list_all (\<lambda>c. \<not> is_linebreak c)) ls"
    using splitlines_break_free
    by (metis (no_types, lifting) UN_E list_all_iff s)
  moreover have "ls = [] \<or> last ls \<noteq> []"
    using assms s by (metis last_in_set)
  ultimately have "splitlines (join [LF] ls) = ls"
    by (auto simp: splitlines_join)
  moreover have "compress_results e rs = join [LF] ls"
    by (simp add: compress_results_def ls_def)
  ultimately show "distinct (splitlines (compress_results e rs))"
    and "set (splitlines (compress_results e rs)) =
           (\<Union>r\<in>set rs. set (splitlines (extracted_content r)))"
    using s d by simp_all
qed

section \<open>Facts about the example inputs\<close>

lemma example_word_counts:
  "length (split_ws ''Access denied'') < 50" "\<not> length (split_ws words50) < 50"
  "\<not> length (split_ws failed_article) < 50"
  by code_simp+

lemma example_valid:
  "is_valid_content (clean_extracted_text words50) 50"
  "\<not> is_valid_content (clean_extracted_text ''Access denied'') 50"
  "is_valid_content (clean_extracted_text failed_article) 50"
  by code_simp+

lemma example_failed_word:
  "\<not> contains (clean_extracted_text words50) ''Failed''"
  "contains (clean_extracted_text failed_article) ''Failed''"
  by code_simp+

lemma clean_failed_article: "clean_extracted_text failed_article = failed_article"
  by code_simp

lemma example_row_url: "url example_row = Some ''http://a''"
  by (simp add: example_row_def new_row_def)

lemma example_summary_differs:
  "clean_extracted_text words50 \<noteq> clean_extracted_text failed_article"
  "clean_extracted_text ''Access denied'' \<noteq> clean_extracted_text words50"
  by code_simp+

lemmas pipeline_defs = search_and_scrape_def loop_body_def try_scrape_def strategies_def
  attempt_def extract_article_def primary_text_def persist_result_def db_commit_def
  get_existing_urls_def candidate_urls_def redis_exists_def redis_set_def scraped_key_def
  sleep_def called_def new_row_def get_default_def Let_def

lemma example_try_scrape:
  "fst (try_scrape e ''http://a'' empty_state) = clean_extracted_text words50"
  if "fetch e = fetch example_env" "doc_summary e = doc_summary example_env"
     "get_text e = get_text example_env" "HAS_REQUESTS_HTML e"
  using that
  by (simp add: try_scrape_def strategies_def attempt_def extract_article_def primary_text_def
      example_env_def example_word_counts example_valid)

lemma failed_write_is_marked:
  "db (search_and_scrape (example_env\<lparr>commit_error := \<lambda>rows new. True\<rparr>) ''q'' empty_state) = [] \<and>
   redis (search_and_scrape (example_env\<lparr>commit_error := \<lambda>rows new. True\<rparr>) ''q'' empty_state)
     (scraped_key ''http://a'') = Some (''1'', 86400)"
  by (simp add: pipeline_defs example_env_def empty_state_def example_word_counts example_valid
      example_failed_word)

lemma example_strings:
  "strip ''a_c'' = ''a_c''" "strip '' q '' = ''q''" "strip ''q'' = ''q''" "strip ''   '' = []"
  "ilike ''abc'' (''%'' @ ''a_c'' @ ''%'')"
  "\<not> contains (lower ''abc'') (lower ''a_c'')"
  "splitlines (''Hello'' @ [LF] @ ''World'') = [''Hello'', ''World'']"
  "splitlines (''World'' @ [LF] @ ''Foo'') = [''World'', ''Foo'']"
  by code_simp+

lemma example_contents:
  "extracted_content example_row = ''Hello'' @ [LF] @ ''World''"
  "extracted_content example_row_b = ''World'' @ [LF] @ ''Foo''"
  "query example_row = ''abc''"
  by (simp_all add: example_row_def example_row_b_def new_row_def)

lemma plain_abc: "plain_query ''abc''"
  by (simp add: plain_query_def)

lemma hello_world_foo:
  assumes c: "extracted_content ra = ''Hello'' @ [LF] @ ''World''"
       "extracted_content rb = ''World'' @ [LF] @ ''Foo''"
  shows "distinct (splitlines (compress_results e [ra, rb])) \<and>
      set (splitlines (compress_results e [ra, rb])) = {''Hello'', ''World'', ''Foo''}"
proof -
  have la: "splitlines (extracted_content ra) = [''Hello'', ''World'']"
    and lb: "splitlines (extracted_content rb) = [''World'', ''Foo'']"
    by (simp_all only: c example_strings)
  have u: "(\<Union>r\<in>set [ra, rb]. set (splitlines (extracted_content r))) = {''Hello'', ''World'', ''Foo''}"
    unfolding la lb list.set UN_insert UN_empty by blast
  have ne: "[] \<notin> (\<Union>r\<in>set [ra, rb]. set (splitlines (extracted_content r)))"
    unfolding u by simp
  from compress_results_splitlines[OF ne, of e] show ?thesis
    unfolding u by (rule conjI)
qed

section \<open>The quality gate\<close>

text \<open>
  C5. With the default \<open>min_words = 50\<close>, \<open>is_valid_content\<close> holds of a text exactly when
  it has at least 50 words and its lower-cased form starts with neither
  \<open>we use cookies\<close> nor \<open>cookie policy\<close>. Sixty repetitions of \<open>lorem \<close> are valid, and
  \<open>We use cookies \<close> followed by any text (sixty words among them) is invalid.
\<close>

theorem is_valid_content_quality_gate:
  "(\<forall>t. is_valid_content t 50 =
      (50 \<le> length (split_ws t) \<and> \<not> startswith (lower t) ''we use cookies'' \<and>
       \<not> startswith (lower t) ''cookie policy'')) \<and>
   is_valid_content (concat (replicate 60 ''lorem '')) 50 \<and>
   (\<forall>ws. \<not> is_valid_content (''We use cookies '' @ ws) 50) \<and>
   \<not> is_valid_content (''We use cookies '' @ concat (replicate 60 ''lorem '')) 50"
proof -
  have gate: "is_valid_content t 50 =
     (50 \<le> length (split_ws t) \<and> \<not> startswith (lower t) ''we use cookies'' \<and>
      \<not> startswith (lower t) ''cookie policy'')" for t
    by (simp add: is_valid_content_def)
  have sixty: "is_valid_content (concat (replicate 60 ''lorem '')) 50"
    by code_simp
  have low: "lower ''We use cookies '' = ''we use cookies'' @ '' ''"
    by code_simp
  have neg: "\<not> is_valid_content (''We use cookies '' @ ws) 50" for ws
    unfolding is_valid_content_def lower_append low
    by (simp only: append_assoc list_ex_Cons_iff list_ex_Nil_iff startswith_append simp_thms)
  from gate sixty neg show ?thesis
    by blast
qed

section \<open>The content cleaner\<close>

text \<open>
  C6. Cleaner idempotence: for every text \<open>t\<close>, cleaning the cleaned text gives the cleaned
  text again; the second pass of the cookie filter, the navigation filter and the trim
  removes nothing.
\<close>

theorem clean_extracted_text_idempotent:
  "clean_extracted_text (clean_extracted_text t) = clean_extracted_text t"
  by (rule clean_extracted_text_fixpoint)

text \<open>
  C9, as the code has it. The cleaner splits the text at every line boundary
  (\<open>\n\<close>, \<open>\r\n\<close>, \<open>\r\<close>, \<open>\v\<close>, \<open>\f\<close>, \<open>\x1c\<close> to \<open>\x1e\<close>, \<open>\x85\<close>), drops exactly the
  lines that hold one of the six cookie phrases in their lower-cased form and have fewer
  than 15 words, then exactly the remaining lines whose trimmed lower-cased form holds one
  of the four navigation phrases and has at most 5 words, joins the surviving lines with
  a single line feed, whatever boundary separated them in the input, and trims the result.
\<close>

theorem clean_extracted_text_filters:
  "clean_extracted_text t =
     strip (join [LF]
       (filter (\<lambda>l. \<not> nav_line l) (filter (\<lambda>l. \<not> cookie_line l) (splitlines t)))) \<and>
   (\<forall>l. cookie_line l =
      (length (split_ws l) < 15 \<and>
       list_ex (\<lambda>p. contains (lower l) p)
         [''we use cookies'', ''cookie policy'', ''accept all'', ''reject all'', ''gdpr'',
          ''privacy settings''])) \<and>
   (\<forall>l. nav_line l =
      (list_ex (\<lambda>p. contains (strip (lower l)) p)
         [''log in'', ''sign up'', ''menu'', ''what can i help with''] \<and>
       length (split_ws (strip (lower l))) \<le> 5))"
proof -
  have "filter (\<lambda>l. \<not> nav_line l) (filter (\<lambda>l. \<not> cookie_line l) (splitlines t)) =
        filter (\<lambda>l. \<not> cookie_line l \<and> \<not> nav_line l) (splitlines t)"
    by (simp add: conj_commute)
  then have "clean_extracted_text t =
     strip (join [LF]
       (filter (\<lambda>l. \<not> nav_line l) (filter (\<lambda>l. \<not> cookie_line l) (splitlines t))))"
    by (simp only: clean_extracted_text_lines)
  moreover have "cookie_line l =
      (length (split_ws l) < 15 \<and>
       list_ex (\<lambda>p. contains (lower l) p)
         [''we use cookies'', ''cookie policy'', ''accept all'', ''reject all'', ''gdpr'',
          ''privacy settings''])" for l
    by (simp add: cookie_line_def cookie_patterns_def re_search_def Let_def)
  moreover have "nav_line l =
      (list_ex (\<lambda>p. contains (strip (lower l)) p)
         [''log in'', ''sign up'', ''menu'', ''what can i help with''] \<and>
       length (split_ws (strip (lower l))) \<le> 5)" for l
    by (simp add: nav_line_def nav_phrases_def Let_def)
  ultimately show ?thesis by blast
qed

text \<open>
  C9 as stated fails where it says the lines are rejoined with the original separator:
  the text \<open>a\r\nb\<close> has two lines, neither filter drops one and there is nothing to
  trim, yet the cleaned text is \<open>a\nb\<close>.
\<close>

theorem clean_extracted_text_separator_counterexample:
  "splitlines [CHR ''a'', CR, LF, CHR ''b''] = [''a'', ''b''] \<and>
   \<not> cookie_line ''a'' \<and> \<not> nav_line ''a'' \<and> \<not> cookie_line ''b'' \<and> \<not> nav_line ''b'' \<and>
   strip [CHR ''a'', CR, LF, CHR ''b''] = [CHR ''a'', CR, LF, CHR ''b''] \<and>
   clean_extracted_text [CHR ''a'', CR, LF, CHR ''b''] = [CHR ''a'', LF, CHR ''b''] \<and>
   clean_extracted_text [CHR ''a'', CR, LF, CHR ''b''] \<noteq> [CHR ''a'', CR, LF, CHR ''b'']"
  by code_simp

section \<open>The article extractor\<close>

text \<open>
  C8. Extractor two-tier fallback: \<open>extract_article\<close> first takes the readability
  summary of the page (\<open>doc_summary\<close>) and the text of that summary. When this primary
  path gives a text of at least 50 words, the cleaned text of the summary is returned.
  When the summary raises, or taking its text raises, or that text has fewer than 50
  words, the stripped text of the entire page is the candidate, and what is returned is
  the cleaned candidate (or the exception of stripping the entire page, which is outside
  the \<open>try\<close>).
\<close>

theorem extract_article_two_tier:
  "(\<forall>summary_html c.
      doc_summary e html = Inr summary_html \<and> get_text e summary_html = Inr c \<and>
      50 \<le> length (split_ws c) \<longrightarrow>
        extract_article e html = Inr (clean_extracted_text c)) \<and>
   ((\<exists>x. doc_summary e html = Inl x) \<or>
    (\<exists>summary_html x. doc_summary e html = Inr summary_html \<and> get_text e summary_html = Inl x) \<or>
    (\<exists>summary_html c. doc_summary e html = Inr summary_html \<and> get_text e summary_html = Inr c \<and>
       length (split_ws c) < 50) \<longrightarrow>
        extract_article e html =
          (case get_text e html of Inl x \<Rightarrow> Inl x | Inr c \<Rightarrow> Inr (clean_extracted_text c)))"
  by (auto simp: extract_article_def primary_text_def split_ws_def split: sum.splits)

text \<open>Collaborators whose summary is not the page: a summary of fifty words over a
  page with another text, a summary of two words over the fifty-word page, and a
  summary that raises. The first returns the text of the summary, the other two the
  text of the entire page, and in each case the two texts differ.\<close>

theorem extract_article_two_tier_witness:
  "extract_article
     (example_env\<lparr>doc_summary := \<lambda>html. Inr ''summary'',
        get_text := \<lambda>h. if h = ''summary'' then Inr words50 else Inr failed_article\<rparr>) ''page''
     = Inr (clean_extracted_text words50) \<and>
   clean_extracted_text words50 \<noteq> clean_extracted_text failed_article \<and>
   extract_article
     (example_env\<lparr>doc_summary := \<lambda>html. Inr ''summary'',
        get_text := \<lambda>h. if h = ''summary'' then Inr ''Access denied'' else Inr words50\<rparr>) ''page''
     = Inr (clean_extracted_text words50) \<and>
   clean_extracted_text ''Access denied'' \<noteq> clean_extracted_text words50 \<and>
   extract_article
     (example_env\<lparr>doc_summary := \<lambda>html. Inl (Exception ''ParserError''),
        get_text := \<lambda>h. if h = ''summary'' then Inr ''Access denied'' else Inr words50\<rparr>) ''page''
     = Inr (clean_extracted_text words50)"
proof -
  let ?e1 = "example_env\<lparr>doc_summary := \<lambda>html. Inr ''summary'',
        get_text := \<lambda>h. if h = ''summary'' then Inr words50 else Inr failed_article\<rparr>"
  let ?e2 = "example_env\<lparr>doc_summary := \<lambda>html. Inr ''summary'',
        get_text := \<lambda>h. if h = ''summary'' then Inr ''Access denied'' else Inr words50\<rparr>"
  let ?e3 = "example_env\<lparr>doc_summary := \<lambda>html. Inl (Exception ''ParserError''),
        get_text := \<lambda>h. if h = ''summary'' then Inr ''Access denied'' else Inr words50\<rparr>"
  have w1: "50 \<le> length (split_ws words50)"
    using example_word_counts(2) by simp
  have h1: "doc_summary ?e1 ''page'' = Inr ''summary'' \<and> get_text ?e1 ''summary'' = Inr words50 \<and>
      50 \<le> length (split_ws words50)"
    using w1 by simp
  have h2: "doc_summary ?e2 ''page'' = Inr ''summary'' \<and>
      get_text ?e2 ''summary'' = Inr ''Access denied'' \<and>
      length (split_ws ''Access denied'') < 50"
    using example_word_counts(1) by simp
  have g2: "get_text ?e2 ''page'' = Inr words50" by simp
  have h3: "doc_summary ?e3 ''page'' = Inl (Exception ''ParserError'')" by simp
  have g3: "get_text ?e3 ''page'' = Inr words50" by simp
  from extract_article_two_tier[where e = ?e1 and html = "''page''"] h1
  have a: "extract_article ?e1 ''page'' = Inr (clean_extracted_text words50)"
    by blast
  from extract_article_two_tier[where e = ?e2 and html = "''page''"] h2
  have "extract_article ?e2 ''page'' =
      (case get_text ?e2 ''page'' of Inl x \<Rightarrow> Inl x | Inr c \<Rightarrow> Inr (clean_extracted_text c))"
    by blast
  then have b: "extract_article ?e2 ''page'' = Inr (clean_extracted_text words50)"
    by (simp only: g2 sum.case)
  from extract_article_two_tier[where e = ?e3 and html = "''page''"] h3
  have "extract_article ?e3 ''page'' =
      (case get_text ?e3 ''page'' of Inl x \<Rightarrow> Inl x | Inr c \<Rightarrow> Inr (clean_extracted_text c))"
    by blast
  then have c: "extract_article ?e3 ''page'' = Inr (clean_extracted_text words50)"
    by (simp only: g3 sum.case)
  from a b c example_summary_differs show ?thesis
    by (intro conjI)
qed

section \<open>The fetch strategy chain\<close>

text \<open>
  C4. Fallback ordering and short-circuit: the strategies are the plain fetch, the
  anti-bot fetch and, when the environment has it, the rendered fetch, in this order;
  the calls \<open>try_scrape\<close> makes are a prefix of that list; it returns the article of the
  first strategy whose attempt is valid, after the failed ones before it; and when the
  first strategy fails and the second gives a valid article, that article is the result
  and the calls are the first and the second strategy only.
\<close>

theorem try_scrape_fallback_order:
  "strategies e =
     [strategy_requests, strategy_cloudscraper] @
     (if HAS_REQUESTS_HTML e then [strategy_requests_html] else []) \<and>
   (\<exists>n\<le>length (strategies e).
      calls (snd (try_scrape e u s)) = calls s @ map (\<lambda>st. (st, u)) (take n (strategies e))) \<and>
   (\<forall>pre strat post a.
      strategies e = pre @ strat # post \<and> all_fail e u pre s \<and>
      attempt e strat u (after_failures u pre s) = Inr a \<and> is_valid_content a 50 \<longrightarrow>
      try_scrape e u s = (a, called strat u (after_failures u pre s))) \<and>
   (\<forall>a. fails e strategy_requests u s \<and>
        attempt e strategy_cloudscraper u (sleep 1 (called strategy_requests u s)) = Inr a \<and>
        is_valid_content a 50 \<longrightarrow>
        fst (try_scrape e u s) = a \<and>
        calls (snd (try_scrape e u s)) =
          calls s @ [(strategy_requests, u), (strategy_cloudscraper, u)])"
proof -
  have order: "strategies e =
     [strategy_requests, strategy_cloudscraper] @
     (if HAS_REQUESTS_HTML e then [strategy_requests_html] else [])"
    by (simp add: strategies_def)
  have prefix: "\<exists>n\<le>length (strategies e).
      calls (snd (try_scrape e u s)) = calls s @ map (\<lambda>st. (st, u)) (take n (strategies e))"
    unfolding try_scrape_def by (rule try_strategies_calls)
  have first: "try_scrape e u s = (a, called strat u (after_failures u pre s))"
    if "strategies e = pre @ strat # post" "all_fail e u pre s"
       "attempt e strat u (after_failures u pre s) = Inr a" "is_valid_content a 50"
    for pre strat post a
    using try_strategies_first_valid[OF that(2,3,4), of post] that(1)
    by (simp add: try_scrape_def)
  have second: "fst (try_scrape e u s) = a \<and>
        calls (snd (try_scrape e u s)) =
          calls s @ [(strategy_requests, u), (strategy_cloudscraper, u)]"
    if "fails e strategy_requests u s"
       "attempt e strategy_cloudscraper u (sleep 1 (called strategy_requests u s)) = Inr a"
       "is_valid_content a 50" for a
  proof -
    have "try_scrape e u s =
       (a, called strategy_cloudscraper u (after_failures u [strategy_requests] s))"
      using first[of "[strategy_requests]" strategy_cloudscraper
          "if HAS_REQUESTS_HTML e then [strategy_requests_html] else []" a] that
      by (simp add: strategies_def)
    then show ?thesis by (simp add: called_def sleep_def)
  qed
  from order prefix first second show ?thesis by blast
qed

text \<open>On the example collaborators the rendered fetch is available, the plain fetch
  gives a two-word page and the anti-bot fetch the fifty-word page.\<close>

theorem try_scrape_fallback_order_witness:
  "HAS_REQUESTS_HTML example_env \<and>
   fails example_env strategy_requests ''http://a'' empty_state \<and>
   fst (try_scrape example_env ''http://a'' empty_state) = clean_extracted_text words50 \<and>
   calls (snd (try_scrape example_env ''http://a'' empty_state)) =
     calls empty_state @ [(strategy_requests, ''http://a''), (strategy_cloudscraper, ''http://a'')]"
proof -
  have h: "HAS_REQUESTS_HTML example_env" by (simp add: example_env_def)
  have f: "fails example_env strategy_requests ''http://a'' empty_state"
    by (simp add: fails_def attempt_def extract_article_def primary_text_def example_env_def
        example_word_counts example_valid)
  have a: "attempt example_env strategy_cloudscraper ''http://a''
             (sleep 1 (called strategy_requests ''http://a'' empty_state))
           = Inr (clean_extracted_text words50)"
    by (simp add: attempt_def extract_article_def primary_text_def example_env_def
        example_word_counts)
  from try_scrape_fallback_order[of example_env "''http://a''" empty_state] f a example_valid(1)
  have "fst (try_scrape example_env ''http://a'' empty_state) = clean_extracted_text words50 \<and>
   calls (snd (try_scrape example_env ''http://a'' empty_state)) =
     calls empty_state @ [(strategy_requests, ''http://a''), (strategy_cloudscraper, ''http://a'')]"
    by blast
  with h f show ?thesis by blast
qed

section \<open>Deduplication\<close>

text \<open>
  C3. Idempotence of dedup: when the stored URLs are pairwise different, they are so
  after any number of requests to the endpoint, each with any answers of the
  collaborators, and then every URL has at most one stored row. A URL that has a marker
  or a stored row when a pipeline run starts is not fetched in that run, and a URL with
  a stored row is not fetched in any later request.
\<close>

theorem dedup_idempotent:
  "(distinct (stored_urls (db s)) \<longrightarrow>
      distinct (stored_urls (db (serve reqs s))) \<and>
      (\<forall>u. length (filter (\<lambda>row. url row = Some u) (db (serve reqs s))) \<le> 1)) \<and>
   (redis_exists (redis s) (scraped_key u) \<or> Some u \<in> set (map url (db s)) \<longrightarrow>
      fetched u (search_and_scrape e q s) = fetched u s) \<and>
   (Some u \<in> set (map url (db s)) \<longrightarrow> fetched u (serve reqs s) = fetched u s)"
  using serve_unique[of s reqs] unique_at_most_one[of "db (serve reqs s)"]
    search_and_scrape_no_fetch[of s u e q] serve_durable[of u s reqs]
  by blast

text \<open>A store that holds the candidate URL of the example, before two requests.\<close>

theorem dedup_idempotent_witness:
  "distinct (stored_urls (db (serve [(example_env, Some ''q''), (example_env, Some ''abc'')]
      (empty_state\<lparr>db := [example_row]\<rparr>)))) \<and>
   length (filter (\<lambda>row. url row = Some ''http://a'')
     (db (serve [(example_env, Some ''q''), (example_env, Some ''abc'')]
        (empty_state\<lparr>db := [example_row]\<rparr>)))) \<le> 1 \<and>
   fetched ''http://a'' (search_and_scrape example_env ''q'' (empty_state\<lparr>db := [example_row]\<rparr>)) = [] \<and>
   fetched ''http://a'' (serve [(example_env, Some ''q''), (example_env, Some ''abc'')]
      (empty_state\<lparr>db := [example_row]\<rparr>)) = []"
proof -
  let ?s = "empty_state\<lparr>db := [example_row]\<rparr>"
  have d: "distinct (stored_urls (db ?s))"
    by (simp add: stored_urls_def example_row_url)
  have m: "Some ''http://a'' \<in> set (map url (db ?s))"
    by (simp add: example_row_url)
  have f: "fetched ''http://a'' ?s = []"
    by (simp add: fetched_def empty_state_def)
  note inst = dedup_idempotent[of ?s "[(example_env, Some ''q''), (example_env, Some ''abc'')]"
      "''http://a''" example_env "''q''"]
  from inst d have a: "distinct (stored_urls (db (serve [(example_env, Some ''q''), (example_env, Some ''abc'')] ?s)))"
    and b: "\<forall>u. length (filter (\<lambda>row. url row = Some u)
          (db (serve [(example_env, Some ''q''), (example_env, Some ''abc'')] ?s))) \<le> 1"
    by blast+
  from inst m have c: "fetched ''http://a'' (search_and_scrape example_env ''q'' ?s) = fetched ''http://a'' ?s"
    and e: "fetched ''http://a'' (serve [(example_env, Some ''q''), (example_env, Some ''abc'')] ?s)
            = fetched ''http://a'' ?s"
    by blast+
  from a b[rule_format, of "''http://a''"] c e show ?thesis
    by (simp only: f simp_thms)
qed

section \<open>Markers and the per-URL loop\<close>

text \<open>
  C1, as the code has it. For a result with a non-empty URL \<open>u\<close>: when \<open>u\<close> has a marker
  or is among the URLs found stored before the loop, the turn of the loop is a skip and
  writes nothing, so no marker is set on a skip; when \<open>u\<close> is new, the chain gave a
  content without the word \<open>Failed\<close> and the commit succeeds, the row is appended and
  the marker of \<open>u\<close> holds \<open>1\<close> with an expiry of 86400 seconds; when the commit fails,
  the store is as before; and in every case the loop goes on with the remaining results.
\<close>

theorem loop_body_marker_discipline:
  "map_of r ''url'' = Some u \<and> u \<noteq> [] \<longrightarrow>
     (redis_exists (redis s) (scraped_key u) \<or> u \<in> set ex \<longrightarrow> loop_body e q ex r s = s) \<and>
     (\<not> redis_exists (redis s) (scraped_key u) \<and> u \<notin> set ex \<and>
      try_scrape e u s = (content, s1) \<and> \<not> contains content ''Failed'' \<longrightarrow>
        (\<forall>rows. db_commit e (db s) (new_row e q r content) = Inr rows \<longrightarrow>
           db (loop_body e q ex r s) = db s @ [new_row e q r content] \<and>
           redis (loop_body e q ex r s) (scraped_key u) = Some (''1'', 86400)) \<and>
        (\<forall>x. db_commit e (db s) (new_row e q r content) = Inl x \<longrightarrow>
           db (loop_body e q ex r s) = db s)) \<and>
     per_url_loop e q ex (r # rest) s = per_url_loop e q ex rest (loop_body e q ex r s)"
  using loop_body_skip[of r u s ex e q] loop_body_persisted[of r u s ex e content s1 q]
    loop_body_write_failed(1)[of r u s ex e content s1 q]
  by simp

text \<open>A skip, a successful write and a failed write on the example collaborators.\<close>

theorem loop_body_marker_discipline_witness:
  "loop_body example_env ''q'' [''http://a''] [(''url'', ''http://a''), (''title'', ''A'')]
     (empty_state\<lparr>db := [example_row]\<rparr>) = empty_state\<lparr>db := [example_row]\<rparr> \<and>
   db (loop_body example_env ''q'' [] [(''url'', ''http://a''), (''title'', ''A'')] empty_state)
     = db empty_state @ [new_row example_env ''q'' [(''url'', ''http://a''), (''title'', ''A'')]
          (clean_extracted_text words50)] \<and>
   redis (loop_body example_env ''q'' [] [(''url'', ''http://a''), (''title'', ''A'')] empty_state)
     (scraped_key ''http://a'') = Some (''1'', 86400) \<and>
   db (loop_body (example_env\<lparr>commit_error := \<lambda>rows new. True\<rparr>) ''q'' []
         [(''url'', ''http://a''), (''title'', ''A'')] empty_state) = db empty_state"
proof -
  let ?r = "[(''url'', ''http://a''), (''title'', ''A'')]"
  let ?e2 = "example_env\<lparr>commit_error := \<lambda>rows new. True\<rparr>"
  let ?c = "clean_extracted_text words50"
  have u: "map_of ?r ''url'' = Some ''http://a'' \<and> ''http://a'' \<noteq> []" by simp
  have skip: "''http://a'' \<in> set [''http://a'']" by simp
  have fresh: "\<not> redis_exists (redis empty_state) (scraped_key ''http://a'') \<and>
     ''http://a'' \<notin> set []"
    by (simp add: redis_exists_def empty_state_def)
  have t1: "try_scrape example_env ''http://a'' empty_state =
      (?c, snd (try_scrape example_env ''http://a'' empty_state))"
    using example_try_scrape[of example_env]
    by (simp add: prod_eq_iff example_env_def)
  have t2: "try_scrape ?e2 ''http://a'' empty_state =
      (?c, snd (try_scrape ?e2 ''http://a'' empty_state))"
    using example_try_scrape[of ?e2]
    by (simp add: prod_eq_iff example_env_def)
  have ok: "db_commit example_env (db empty_state) (new_row example_env ''q'' ?r ?c)
      = Inr (db empty_state @ [new_row example_env ''q'' ?r ?c])"
    by (simp add: db_commit_def empty_state_def example_env_def)
  have bad: "db_commit ?e2 (db empty_state) (new_row ?e2 ''q'' ?r ?c)
      = Inl (Exception ''OperationalError'')"
    by (simp add: db_commit_def empty_state_def example_env_def)
  from loop_body_marker_discipline[where r = ?r and u = "''http://a''"
      and s = "empty_state\<lparr>db := [example_row]\<rparr>" and ex = "[''http://a'']"
      and e = example_env and q = "''q''"] u skip
  have a: "loop_body example_env ''q'' [''http://a''] ?r (empty_state\<lparr>db := [example_row]\<rparr>)
      = empty_state\<lparr>db := [example_row]\<rparr>"
    by blast
  from loop_body_marker_discipline[where r = ?r and u = "''http://a''" and s = empty_state
      and ex = "[]" and e = example_env and q = "''q''" and content = ?c
      and ?s1.0 = "snd (try_scrape example_env ''http://a'' empty_state)"]
    u fresh t1 example_failed_word(1) ok
  have b: "db (loop_body example_env ''q'' [] ?r empty_state)
       = db empty_state @ [new_row example_env ''q'' ?r ?c] \<and>
     redis (loop_body example_env ''q'' [] ?r empty_state) (scraped_key ''http://a'')
       = Some (''1'', 86400)"
    by blast
  from loop_body_marker_discipline[where r = ?r and u = "''http://a''" and s = empty_state
      and ex = "[]" and e = ?e2 and q = "''q''" and content = ?c
      and ?s1.0 = "snd (try_scrape ?e2 ''http://a'' empty_state)"]
    u fresh t2 example_failed_word(1) bad
  have c: "db (loop_body ?e2 ''q'' [] ?r empty_state) = db empty_state"
    by blast
  from a b c show ?thesis by blast
qed

text \<open>
  C1 as stated fails where it says the marker is also set right after a skip decision:
  the candidate URL of the example has a stored row and no marker, the run skips it, and
  it has no marker afterwards.
\<close>

theorem skip_sets_no_marker_counterexample:
  "map_of [(''url'', ''http://a''), (''title'', ''A'')] ''url'' = Some ''http://a'' \<and>
   searxng example_env ''q'' = Inr [[(''url'', ''http://a''), (''title'', ''A'')]] \<and>
   Some ''http://a'' \<in> set (map url (db (empty_state\<lparr>db := [example_row]\<rparr>))) \<and>
   redis (search_and_scrape example_env ''q'' (empty_state\<lparr>db := [example_row]\<rparr>))
     (scraped_key ''http://a'') = None"
  by (simp add: pipeline_defs example_env_def empty_state_def example_row_def)

section \<open>The persist condition\<close>

text \<open>
  C2 at a failing input. The page of every strategy is the fifty-word article with the
  word \<open>Failed\<close> in it. The article is valid, the chain returns it from the first
  strategy, and the loop, which tests \<open>"Failed" not in content\<close>, stores no row and sets
  no marker.
\<close>

theorem failed_word_article_dropped:
  "is_valid_content failed_article 50 \<and>
   extract_article (example_env\<lparr>get_text := \<lambda>html. Inr failed_article\<rparr>) ''blocked''
     = Inr failed_article \<and>
   try_scrape (example_env\<lparr>get_text := \<lambda>html. Inr failed_article\<rparr>) ''http://a'' empty_state
     = (failed_article, called strategy_requests ''http://a'' empty_state) \<and>
   db (search_and_scrape (example_env\<lparr>get_text := \<lambda>html. Inr failed_article\<rparr>) ''q'' empty_state) = [] \<and>
   redis (search_and_scrape (example_env\<lparr>get_text := \<lambda>html. Inr failed_article\<rparr>) ''q'' empty_state)
     (scraped_key ''http://a'') = None"
proof -
  have v: "is_valid_content failed_article 50"
    using example_valid(3) by (simp add: clean_failed_article)
  have c: "contains failed_article ''Failed''"
    using example_failed_word(2) by (simp add: clean_failed_article)
  show ?thesis
    by (simp add: pipeline_defs example_env_def empty_state_def example_word_counts
        clean_failed_article v c)
qed

section \<open>The compressed answer\<close>

text \<open>
  C7, as the code has it. When the endpoint answers a query without a cached blob, the
  blob is the join with line feeds of a list without repetition whose elements are the
  lines of the extracted content of the stored rows, after the run, whose query field
  matches the pattern \<open>%query%\<close> under \<open>ILIKE\<close>. For a query without \<open>%\<close>, \<open>_\<close> and
  backslash that match is the substring match without case. Two rows with the lines
  Hello, World and World, Foo compress, in any set order, to a blob whose lines are
  Hello, World and Foo, each once.
\<close>

theorem compressed_answer_lines:
  "(\<exists>ls. distinct ls \<and>
      set ls = (\<Union>r\<in>set (filter (\<lambda>r. ilike (query r) (''%'' @ q @ ''%''))
                              (db (search_and_scrape e q s))).
                  set (splitlines (extracted_content r))) \<and>
      fst (answer_uncached e q s) = Response 200 [(''query'', q), (''data'', join [LF] ls)]) \<and>
   (q \<noteq> [] \<and> strip q = q \<and> redis_get (redis s) (''results:'' @ q) = None \<longrightarrow>
      scrape_query e (Some q) s = answer_uncached e q s) \<and>
   (plain_query q \<longrightarrow> (\<forall>t. ilike t (''%'' @ q @ ''%'') = contains (lower t) (lower q))) \<and>
   (extracted_content ra = ''Hello'' @ [LF] @ ''World'' \<and>
    extracted_content rb = ''World'' @ [LF] @ ''Foo'' \<longrightarrow>
      distinct (splitlines (compress_results e [ra, rb])) \<and>
      set (splitlines (compress_results e [ra, rb])) = {''Hello'', ''World'', ''Foo''})"
proof (intro conjI impI allI)
  let ?rs = "filter (\<lambda>r. ilike (query r) (''%'' @ q @ ''%'')) (db (search_and_scrape e q s))"
  from compress_results_lines[of e ?rs] obtain ls where
    ls: "compress_results e ?rs = join [LF] ls" "distinct ls"
      "set ls = (\<Union>r\<in>set ?rs. set (splitlines (extracted_content r)))"
    by blast
  have "fst (answer_uncached e q s) = Response 200 [(''query'', q), (''data'', join [LF] ls)]"
    using ls(1) by (simp add: answer_uncached_def Let_def)
  with ls(2,3) show "\<exists>ls. distinct ls \<and>
      set ls = (\<Union>r\<in>set ?rs. set (splitlines (extracted_content r))) \<and>
      fst (answer_uncached e q s) = Response 200 [(''query'', q), (''data'', join [LF] ls)]"
    by (intro exI[of _ ls] conjI)
next
  assume "q \<noteq> [] \<and> strip q = q \<and> redis_get (redis s) (''results:'' @ q) = None"
  then show "scrape_query e (Some q) s = answer_uncached e q s"
    by (simp add: scrape_query_def Let_def)
next
  fix t assume "plain_query q"
  then show "ilike t (''%'' @ q @ ''%'') = contains (lower t) (lower q)"
    by (rule ilike_substring)
next
  assume c: "extracted_content ra = ''Hello'' @ [LF] @ ''World'' \<and>
    extracted_content rb = ''World'' @ [LF] @ ''Foo''"
  then show "distinct (splitlines (compress_results e [ra, rb]))"
    using hello_world_foo[of ra rb e] by (simp only:)
  from c show "set (splitlines (compress_results e [ra, rb])) = {''Hello'', ''World'', ''Foo''}"
    using hello_world_foo[of ra rb e] by (simp only:)
qed

text \<open>The plain query \<open>abc\<close> on an empty cache, and the two rows of the example.\<close>

theorem compressed_answer_lines_witness:
  "plain_query ''abc'' \<and>
   ilike ''xABCx'' (''%'' @ ''abc'' @ ''%'') = contains (lower ''xABCx'') (lower ''abc'') \<and>
   scrape_query example_env (Some ''abc'') empty_state = answer_uncached example_env ''abc'' empty_state \<and>
   distinct (splitlines (compress_results example_env [example_row, example_row_b])) \<and>
   set (splitlines (compress_results example_env [example_row, example_row_b])) =
     {''Hello'', ''World'', ''Foo''}"
proof -
  note inst = compressed_answer_lines[where q = "''abc''" and e = example_env and s = empty_state
      and ra = example_row and rb = example_row_b]
  have h: "''abc'' \<noteq> [] \<and> strip ''abc'' = ''abc'' \<and>
      redis_get (redis empty_state) (''results:'' @ ''abc'') = None"
    by (simp add: redis_get_def empty_state_def) code_simp
  from inst plain_abc
  have a: "ilike ''xABCx'' (''%'' @ ''abc'' @ ''%'') = contains (lower ''xABCx'') (lower ''abc'')"
    by blast
  from inst h
  have b: "scrape_query example_env (Some ''abc'') empty_state = answer_uncached example_env ''abc'' empty_state"
    by blast
  from inst example_contents(1,2)
  have c: "distinct (splitlines (compress_results example_env [example_row, example_row_b])) \<and>
   set (splitlines (compress_results example_env [example_row, example_row_b])) =
     {''Hello'', ''World'', ''Foo''}"
    by blast
  from plain_abc a b c show ?thesis by (intro conjI) (simp_all only:)
qed

text \<open>
  C7 as stated fails where it says the rows are chosen by substring match: the query
  \<open>a_c\<close> is not a substring of the query field \<open>abc\<close> in any case, yet \<open>_\<close> matches the
  \<open>b\<close> and the lines of that row are the answer.
\<close>

theorem wildcard_query_counterexample:
  "query example_row = ''abc'' \<and>
   \<not> contains (lower ''abc'') (lower ''a_c'') \<and>
   fst (scrape_query (example_env\<lparr>searxng := \<lambda>q. Inl (Exception ''down'')\<rparr>) (Some ''a_c'')
         (empty_state\<lparr>db := [example_row]\<rparr>))
     = Response 200 [(''query'', ''a_c''), (''data'', ''Hello'' @ [LF] @ ''World'')]"
proof -
  let ?e = "example_env\<lparr>searxng := \<lambda>q. Inl (Exception ''down'')\<rparr>"
  let ?s = "empty_state\<lparr>db := [example_row]\<rparr>"
  have sq: "scrape_query ?e (Some ''a_c'') ?s = answer_uncached ?e ''a_c'' ?s"
    by (simp add: scrape_query_def example_strings(1) redis_get_def empty_state_def Let_def)
  have ss: "search_and_scrape ?e ''a_c'' ?s = ?s"
    by (simp add: search_and_scrape_def)
  have il: "filter (\<lambda>r. ilike (query r) (''%'' @ ''a_c'' @ ''%'')) [example_row] = [example_row]"
    by (simp only: filter.simps example_contents(3) example_strings(5) if_True)
  have cr: "compress_results ?e [example_row] = ''Hello'' @ [LF] @ ''World''"
    unfolding compress_results_def list.map example_contents(1) example_strings(7)
    by (simp add: example_env_def)
  have d: "db ?s = [example_row]" by simp
  have "fst (answer_uncached ?e ''a_c'' ?s)
      = Response 200 [(''query'', ''a_c''), (''data'', compress_results ?e [example_row])]"
    unfolding answer_uncached_def Let_def ss d il by simp
  with sq cr example_contents(3) example_strings(6) show ?thesis
    by (simp only: simp_thms)
qed

section \<open>The query parameter\<close>

text \<open>
  C10. The query parameter is trimmed before any use: a missing, empty or whitespace-only
  parameter is answered with status 400 and the state is untouched; a parameter with a
  non-empty trimmed form reaches the cache and the pipeline as its trimmed form only; and
  two parameters with the same trimmed form are processed identically.
\<close>

theorem scrape_query_trims:
  "(strip (case arg of None \<Rightarrow> [] | Some v \<Rightarrow> v) = [] \<longrightarrow>
      scrape_query e arg s = (Response 400 [(''error'', ''Missing query parameter'')], s)) \<and>
   scrape_query e None s = (Response 400 [(''error'', ''Missing query parameter'')], s) \<and>
   scrape_query e (Some []) s = (Response 400 [(''error'', ''Missing query parameter'')], s) \<and>
   (list_all is_space v \<longrightarrow>
      scrape_query e (Some v) s = (Response 400 [(''error'', ''Missing query parameter'')], s)) \<and>
   (strip a \<noteq> [] \<longrightarrow>
      scrape_query e (Some a) s =
        (case redis_get (redis s) (''results:'' @ strip a) of
           None \<Rightarrow> answer_uncached e (strip a) s
         | Some cached \<Rightarrow>
             if cached \<noteq> [] then (Response 200 [(''query'', strip a), (''data'', cached)], s)
             else answer_uncached e (strip a) s)) \<and>
   (strip a = strip b \<longrightarrow> scrape_query e (Some a) s = scrape_query e (Some b) s)"
  by (simp add: scrape_query_def strip_all_space Let_def)

text \<open>A blank parameter, and the parameter \<open>q\<close> with blanks around it.\<close>

theorem scrape_query_trims_witness:
  "scrape_query example_env (Some ''   '') empty_state =
     (Response 400 [(''error'', ''Missing query parameter'')], empty_state) \<and>
   scrape_query example_env (Some '' q '') empty_state =
     scrape_query example_env (Some ''q'') empty_state \<and>
   scrape_query example_env (Some '' q '') empty_state = answer_uncached example_env ''q'' empty_state"
proof -
  have r: "redis_get (redis empty_state) (''results:'' @ ''q'') = None"
    by (simp add: redis_get_def empty_state_def)
  have a: "scrape_query example_env (Some ''   '') empty_state =
     (Response 400 [(''error'', ''Missing query parameter'')], empty_state)"
    using scrape_query_trims[where arg = "Some ''   ''" and e = example_env and s = empty_state]
    by (simp add: example_strings)
  have b: "scrape_query example_env (Some '' q '') empty_state =
     scrape_query example_env (Some ''q'') empty_state"
    using scrape_query_trims[where a = "'' q ''" and b = "''q''" and e = example_env and s = empty_state]
    by (simp only: example_strings simp_thms)
  have c: "scrape_query example_env (Some '' q '') empty_state = answer_uncached example_env ''q'' empty_state"
    using scrape_query_trims[where a = "'' q ''" and e = example_env and s = empty_state] r
    by (simp add: example_strings)
  from a b c show ?thesis by blast
qed

end
